theory Spec2Isabelle
  imports Main
begin

section \<open>Data model of the log activity\<close>

text \<open>
  The activity keeps its state in module-level variables (\<open>lastMessageId\<close>, \<open>buffer\<close>,
  \<open>resendBuffer\<close>, \<open>retryTimeout\<close>, \<open>retryMilliseconds\<close>, \<open>nextSubmit\<close>,
  \<open>logResourceUrl\<close>) and in the closure of \<open>create\<close> (\<open>timeout\<close>). The model passes
  them around as one record. What the code does to the outside world is part of that record
  too: the requests handed to \<open>postTo\<close> (\<open>sent\<close>), the log channel and the
  \<open>beforeunload\<close> listener. Values of replacements are kept abstract (type \<open>'v\<close>).

  Of a log item, \<open>item_tags\<close> are the entries of \<open>item.tags\<close> in the order of its
  keys, \<open>item_time\<close> is \<open>item.time.toISOString()\<close>, and \<open>sourceInfo_file\<close> and
  \<open>sourceInfo_line\<close> are the fields of \<open>item.sourceInfo\<close>. Numbers are integers.
\<close>

record 'v logItem =
  item_id :: int
  item_level :: string
  item_text :: string
  item_replacements :: "'v list"
  item_tags :: "(string \<times> string) list"
  item_time :: string
  sourceInfo_file :: string
  sourceInfo_line :: int

record 'v messageItem =
  file' :: string
  line :: int
  level :: string
  repetitions :: nat
  replacements :: "'v list"
  tags :: "string list"
  text' :: string
  time :: string

text \<open>
  A request is either \<open>{ messages: buffer, source }\<close> or \<open>{ ...message, source }\<close>.
  The payload is \<open>JSON.stringify( request )\<close>; the model keeps the request itself.
\<close>

datatype 'v request =
    Batch "'v messageItem list" string
  | Single "'v messageItem" string

record 'v post =
  post_url :: "string option"
  post_headers :: "(string \<times> string) list"
  post_body :: "'v request"
  post_synchronously :: bool

text \<open>
  An entry of \<open>resendBuffer\<close> is a mutable object that the callbacks of its own resend
  refer to; \<open>entryId\<close> stands for the identity of that object.
\<close>

record 'v pending =
  entryId :: nat
  payload :: "'v request"
  retriesLeft :: int

record 'v engine =
  lastMessageId :: int
  buffer :: "'v messageItem list"
  resendBuffer :: "'v pending list"
  retryTimeout :: "int option"
  retryMilliseconds :: "int option"
  nextSubmit :: "int option"
  logResourceUrl :: "string option"
  timeout :: "int option"
  logChannel :: bool
  unloadListener :: bool
  sent :: "'v post list"
  allocated :: nat

text \<open>
  A timer field holds the delay of the pending timer, \<open>None\<close> when no timer is pending
  (\<open>window.clearTimeout\<close>).

  The formatter of the laxar library (\<open>string.createFormatter\<close>) is not part of this
  repository. What the call \<open>format( text, replacements )\<close> does is taken as a parameter,
  as far as the code takes part in it: the library returns the text, or it throws, or it
  calls the mapper \<open>anonymize\<close> on a value and goes on with the string that the mapper
  returns. What it does with that string (write it into the text, hand it to a further
  mapper or formatter) is up to the library, as are the literal output and the values that
  reach the mapper, which depend on the table of formatters with \<open>defaultFormatter\<close>.

  The environment holds what \<open>create\<close> reads from its injections: \<open>features.logging\<close>
  (\<open>enabled\<close>, \<open>threshold\<close>, \<open>retry\<close>, \<open>requestPolicy\<close>), \<open>features.instanceId\<close>,
  the configured resource URL (\<open>None\<close> for \<open>null\<close>), the \<open>INST\<close> tag of the global log,
  and \<open>document.location.origin\<close>.
\<close>

datatype 'v formatting =
    Returns string
  | Throws string
  | CallsAnonymize 'v "string \<Rightarrow> 'v formatting"

record 'v env =
  logging_enabled :: bool
  resourceUrl :: "string option"
  instanceId :: string
  instanceId_enabled :: bool
  instanceId_header :: string
  threshold_messages :: int
  threshold_seconds :: int
  retry_enabled :: bool
  retry_seconds :: int
  retry_retries :: int
  requestPolicy :: string
  origin :: string
  formatter :: "string \<Rightarrow> 'v list \<Rightarrow> 'v formatting"

text \<open>The state when the module is loaded; no request has been posted yet.\<close>

definition initial :: "'v engine" where
  "initial = \<lparr> lastMessageId = - 1, buffer = [], resendBuffer = [], retryTimeout = None,
      retryMilliseconds = None, nextSubmit = None, logResourceUrl = None, timeout = None,
      logChannel = False, unloadListener = False, sent = [], allocated = 0 \<rparr>"

section \<open>Rendering numbers\<close>

definition digit :: "nat \<Rightarrow> char" where
  "digit d = char_of (48 + d)"

function string_of_nat :: "nat \<Rightarrow> string" where
  "string_of_nat n =
     (if n < 10 then [digit n] else string_of_nat (n div 10) @ [digit (n mod 10)])"
  by pat_completeness auto
termination
  by (relation "measure (\<lambda>n. n)") auto

declare string_of_nat.simps [simp del]

section \<open>The message formatter\<close>

text \<open>
  The mapper \<open>anonymize( value )\<close> pushes the value to \<open>anonymizeReplacements\<close> and
  returns the placeholder with the index of the value just pushed.
\<close>

definition anonymize :: "'v \<Rightarrow> 'v list \<Rightarrow> string \<times> 'v list" where
  "anonymize v anonymizeReplacements =
     (let pushed = anonymizeReplacements @ [v]
      in (''['' @ string_of_nat (length pushed - 1) @ '':anonymize]'', pushed))"

text \<open>
  \<open>createMessageFormatter\<close>: every call starts with an empty list
  \<open>anonymizeReplacements\<close>, lets the library format the text with the mapper, and returns
  the text of the library with the list as it is then. \<open>runFormat\<close> follows the library
  through its calls of the mapper; an exception of the library leaves the call.
\<close>

primrec runFormat :: "'v formatting \<Rightarrow> 'v list \<Rightarrow> string + (string \<times> 'v list)" where
  "runFormat (Returns t) anonymizeReplacements = Inr (t, anonymizeReplacements)"
| "runFormat (Throws err) anonymizeReplacements = Inl err"
| "runFormat (CallsAnonymize v continue) anonymizeReplacements =
     (case anonymize v anonymizeReplacements of
        (t, pushed) \<Rightarrow> runFormat (continue t) pushed)"

definition formatMessage ::
  "'v env \<Rightarrow> string \<Rightarrow> 'v list \<Rightarrow> string + (string \<times> 'v list)" where
  "formatMessage e txt repl = runFormat (formatter e txt repl) []"

section \<open>Timers and delivery\<close>

definition ms :: "int \<Rightarrow> int" where
  "ms s = 1000 * s"

definition truthy :: "int option \<Rightarrow> bool" where
  "truthy x = (case x of None \<Rightarrow> False | Some n \<Rightarrow> n \<noteq> 0)"

definition headers :: "'v env \<Rightarrow> (string \<times> string) list" where
  "headers e =
     (if instanceId_enabled e
      then [(instanceId_header e, ''[INST:'' @ instanceId e @ '']''),
            (''Content-Type'', ''application/json'')]
      else [])"

text \<open>
  \<open>postTo\<close> issues the request with \<open>fetch\<close>, or, when \<open>synchronously\<close> is set, with
  an \<open>XMLHttpRequest\<close> (opened with its \<open>async\<close> argument \<open>true\<close>) and a promise that
  is already resolved. The model records the request with that flag.
\<close>

definition postTo ::
  "'v env \<Rightarrow> string option \<Rightarrow> 'v request \<Rightarrow> bool \<Rightarrow> 'v engine \<Rightarrow> 'v engine" where
  "postTo e url body synchronously s =
     s\<lparr> sent := sent s @ [\<lparr> post_url = url, post_headers = headers e, post_body = body,
                             post_synchronously = synchronously \<rparr>] \<rparr>"

definition scheduleNextSubmit :: "'v env \<Rightarrow> int \<Rightarrow> 'v engine \<Rightarrow> 'v engine" where
  "scheduleNextSubmit e dateNow s =
     (let s1 = s\<lparr> timeout := None \<rparr>
      in if truthy (nextSubmit s1)
         then (case nextSubmit s1 of
                 Some deadline \<Rightarrow> s1\<lparr> timeout := Some (deadline - dateNow) \<rparr>
               | None \<Rightarrow> s1)
         else s1\<lparr> timeout := Some (ms (threshold_seconds e)),
                  nextSubmit := Some (dateNow + ms (threshold_seconds e)) \<rparr>)"

definition scheduleNextResend :: "'v env \<Rightarrow> 'v engine \<Rightarrow> 'v engine" where
  "scheduleNextResend e s =
     (let s1 = s\<lparr> retryTimeout := None \<rparr>;
          s2 = s1\<lparr> retryMilliseconds := Some (ms (retry_seconds e)) \<rparr>
      in s2\<lparr> retryTimeout := retryMilliseconds s2 \<rparr>)"

section \<open>Submitting the buffer\<close>

definition markRepeated :: "'v messageItem \<Rightarrow> 'v messageItem" where
  "markRepeated m =
     (if repetitions m > 1
      then m\<lparr> text' := text' m @ '' (repeated '' @ string_of_nat (repetitions m) @ ''x)'' \<rparr>
      else m)"

definition send :: "'v env \<Rightarrow> bool \<Rightarrow> 'v request \<Rightarrow> 'v engine \<Rightarrow> 'v engine" where
  "send e synchronously request s = postTo e (logResourceUrl s) request synchronously s"

text \<open>
  The \<open>catch\<close> callback of \<open>send\<close>, run when the promise of \<open>postTo\<close> is rejected.
  For a synchronous request \<open>postTo\<close> returns a resolved promise, so the callback never
  runs then.
\<close>

definition sendFailed :: "'v env \<Rightarrow> bool \<Rightarrow> 'v request \<Rightarrow> 'v engine \<Rightarrow> 'v engine" where
  "sendFailed e synchronously p s =
     (if retry_enabled e \<and> \<not> synchronously
      then scheduleNextResend e
             (s\<lparr> resendBuffer := resendBuffer s @
                    [\<lparr> entryId = allocated s, payload = p, retriesLeft = retry_retries e \<rparr>],
                 allocated := allocated s + 1 \<rparr>)
      else s)"

definition chunks :: "'v env \<Rightarrow> 'v messageItem list \<Rightarrow> 'v request list" where
  "chunks e buf =
     (if requestPolicy e = ''BATCH''
      then [Batch buf (origin e)]
      else map (\<lambda>m. Single m (origin e)) buf)"

definition submit :: "'v env \<Rightarrow> bool \<Rightarrow> int \<Rightarrow> 'v engine \<Rightarrow> 'v engine" where
  "submit e synchronously now s =
     (let s1 = scheduleNextSubmit e now (s\<lparr> nextSubmit := None \<rparr>)
      in if buffer s1 = [] then s1
         else
           (let s2 = s1\<lparr> buffer := map markRepeated (buffer s1) \<rparr>;
                s3 = fold (send e synchronously) (chunks e (buffer s2)) s2
            in s3\<lparr> buffer := [] \<rparr>))"

section \<open>Ingesting a log item\<close>

definition sameRecord :: "'v messageItem \<Rightarrow> 'v messageItem \<Rightarrow> bool" where
  "sameRecord item previousItem \<longleftrightarrow>
     line item = line previousItem \<and> file' item = file' previousItem \<and>
     level item = level previousItem \<and> text' item = text' previousItem"

definition numItemsToCheck :: int where
  "numItemsToCheck = 2"

text \<open>
  The loop of \<open>markDuplicate\<close>, from index \<open>i\<close> downwards. \<open>Some\<close> is the result
  \<open>true\<close>, with the buffer in which the repetitions of the matching entry are incremented.
\<close>

function markDuplicateLoop ::
  "'v messageItem \<Rightarrow> 'v messageItem list \<Rightarrow> int \<Rightarrow> int \<Rightarrow> 'v messageItem list option" where
  "markDuplicateLoop item buf n i =
     (if i \<ge> 0 \<and> i \<ge> n - numItemsToCheck
      then (let previousItem = buf ! nat i
            in if sameRecord item previousItem
               then Some (buf[nat i := previousItem\<lparr> repetitions := repetitions previousItem + 1 \<rparr>])
               else markDuplicateLoop item buf n (i - 1))
      else None)"
  by pat_completeness auto
termination
  by (relation "measure (\<lambda>(item, buf, n, i). nat (i + 1))") auto

declare markDuplicateLoop.simps [simp del]

definition markDuplicate ::
  "'v messageItem \<Rightarrow> 'v messageItem list \<Rightarrow> 'v messageItem list option" where
  "markDuplicate item buf = (let n = int (length buf) in markDuplicateLoop item buf n (n - 1))"

definition itemTags :: "'v env \<Rightarrow> 'v logItem \<Rightarrow> string list" where
  "itemTags e item =
     (''INST:'' @ (case map_of (item_tags item) ''INST'' of
                     None \<Rightarrow> instanceId e
                   | Some v \<Rightarrow> if v = [] then instanceId e else v))
     # map (\<lambda>tag. fst tag @ '':'' @ snd tag)
         (filter (\<lambda>tag. fst tag \<noteq> ''INST'') (item_tags item))"

definition messageItemOf ::
  "'v env \<Rightarrow> 'v logItem \<Rightarrow> string \<times> 'v list \<Rightarrow> 'v messageItem" where
  "messageItemOf e item textAndReplacements =
     \<lparr> file' = sourceInfo_file item, line = sourceInfo_line item, level = item_level item,
       repetitions = 1, replacements = snd textAndReplacements, tags = itemTags e item,
       text' = fst textAndReplacements, time = item_time item \<rparr>"

text \<open>
  \<open>handleLogItem\<close> returns the exception that left it, if any, and the state it leaves.
  \<open>now\<close> is what \<open>Date.now()\<close> yields during the call.
\<close>

definition handleLogItem ::
  "'v env \<Rightarrow> int \<Rightarrow> 'v logItem \<Rightarrow> 'v engine \<Rightarrow> string option \<times> 'v engine" where
  "handleLogItem e now item s =
     (if item_id item \<le> lastMessageId s then (None, s)
      else
        (let s1 = s\<lparr> lastMessageId := item_id item \<rparr>
         in case formatMessage e (item_text item) (item_replacements item) of
              Inl err \<Rightarrow> (Some err, s1)
            | Inr textAndReplacements \<Rightarrow>
                (let messageItem = messageItemOf e item textAndReplacements
                 in case markDuplicate messageItem (buffer s1) of
                      Some buf \<Rightarrow> (None, s1\<lparr> buffer := buf \<rparr>)
                    | None \<Rightarrow>
                        (let s2 = s1\<lparr> buffer := buffer s1 @ [messageItem] \<rparr>
                         in if int (length (buffer s2)) \<ge> threshold_messages e
                            then (None, submit e False now s2)
                            else (None, s2)))))"

section \<open>Resending\<close>

text \<open>
  \<open>resendMessages\<close> clears the timer, drops the entries without retries left, arms the
  timer again if entries remain, and then decrements and posts every entry. Posting does
  not read the retries left, so the model decrements all entries first and posts them in
  order after that.
\<close>

definition resendMessages :: "'v env \<Rightarrow> bool \<Rightarrow> 'v engine \<Rightarrow> 'v engine" where
  "resendMessages e synchronously s =
     (let s1 = s\<lparr> retryTimeout := None \<rparr>;
          s2 = s1\<lparr> resendBuffer := filter (\<lambda>item. retriesLeft item > 0) (resendBuffer s1) \<rparr>;
          s3 = (if resendBuffer s2 \<noteq> []
                then s2\<lparr> retryTimeout :=
                            Some (case retryMilliseconds s2 of None \<Rightarrow> 0 | Some d \<Rightarrow> d) \<rparr>
                else s2);
          s4 = s3\<lparr> resendBuffer :=
                     map (\<lambda>item. item\<lparr> retriesLeft := retriesLeft item - 1 \<rparr>) (resendBuffer s3) \<rparr>
      in fold (\<lambda>item. postTo e (logResourceUrl s4) (payload item) synchronously)
           (resendBuffer s4) s4)"

text \<open>The success callback of the resend of the entry \<open>k\<close>: \<open>item.retriesLeft = 0\<close>.\<close>

definition resendSucceeded :: "nat \<Rightarrow> 'v engine \<Rightarrow> 'v engine" where
  "resendSucceeded k s =
     s\<lparr> resendBuffer :=
          map (\<lambda>item. if entryId item = k then item\<lparr> retriesLeft := 0 \<rparr> else item)
            (resendBuffer s) \<rparr>"

section \<open>Start and end of the activity\<close>

text \<open>
  \<open>create\<close> returns at once when logging is disabled or no resource URL is configured
  (\<open>null\<close> or the empty string; the error it logs then is left out). Otherwise it
  restarts the resend timer if payloads wait, attaches \<open>handleLogItem\<close> to the log, and
  submits at once if a deadline of an earlier instance has passed, else schedules the next
  submit. Its closure variable \<open>timeout\<close> starts undefined. The subscription to
  \<open>didEncounterError\<close>, which only logs, is left out. \<open>endLifecycleRequest\<close> is the
  handler subscribed to the event of that name.
\<close>

definition create :: "'v env \<Rightarrow> int \<Rightarrow> 'v engine \<Rightarrow> 'v engine" where
  "create e dateNow s =
     (if \<not> logging_enabled e then s
      else
        (let s1 = s\<lparr> logResourceUrl := resourceUrl e \<rparr>
         in if logResourceUrl s1 = None \<or> logResourceUrl s1 = Some [] then s1
            else
              (let s2 = s1\<lparr> retryTimeout := None \<rparr>;
                   s3 = (if retry_enabled e \<and> resendBuffer s2 \<noteq> []
                         then scheduleNextResend e s2 else s2);
                   s4 = s3\<lparr> logChannel := True, timeout := None \<rparr>;
                   s5 = (if truthy (nextSubmit s4) \<and>
                            (case nextSubmit s4 of Some d \<Rightarrow> dateNow \<ge> d | None \<Rightarrow> False)
                         then submit e False dateNow s4
                         else scheduleNextSubmit e dateNow s4)
               in s5\<lparr> unloadListener := True \<rparr>)))"

definition handleBeforeUnload :: "'v env \<Rightarrow> int \<Rightarrow> 'v engine \<Rightarrow> 'v engine" where
  "handleBeforeUnload e now s =
     (let s1 = submit e True now s;
          s2 = s1\<lparr> timeout := None \<rparr>
      in s2\<lparr> retryTimeout := None \<rparr>)"

definition endLifecycleRequest :: "'v engine \<Rightarrow> 'v engine" where
  "endLifecycleRequest s =
     (let s1 = s\<lparr> logChannel := False \<rparr>;
          s2 = s1\<lparr> timeout := None \<rparr>;
          s3 = s2\<lparr> retryTimeout := None \<rparr>
      in s3\<lparr> unloadListener := False \<rparr>)"

section \<open>Runs of the activity\<close>

text \<open>
  The log channel calls \<open>handleLogItem\<close> once per record; \<open>ingest\<close> is such a
  sequence of calls, each with the time at which it happens. An exception that leaves a
  call does not stop the later calls.

  All that happens to the state is a call of \<open>create\<close>, a record from the log channel,
  a fire of the submit timer (\<open>submit\<close> without argument), the \<open>beforeunload\<close> event,
  the \<open>endLifecycleRequest\<close> event, the rejection of the promise of a request, a fire
  of the resend timer (\<open>resendMessages\<close> without argument), or the success of a resent
  payload. The callbacks run one after the other; \<open>run\<close> is such a sequence.
\<close>

fun ingest :: "'v env \<Rightarrow> (int \<times> 'v logItem) list \<Rightarrow> 'v engine \<Rightarrow> 'v engine" where
  "ingest e [] s = s"
| "ingest e (x # xs) s = ingest e xs (snd (handleLogItem e (fst x) (snd x) s))"

datatype 'v event =
    Create int
  | LogItem int "'v logItem"
  | SubmitTimer int
  | BeforeUnload int
  | EndLifecycleRequest
  | SendFailed bool "'v request"
  | ResendTimer
  | ResendSucceeded nat

fun step :: "'v env \<Rightarrow> 'v event \<Rightarrow> 'v engine \<Rightarrow> 'v engine" where
  "step e (Create now) s = create e now s"
| "step e (LogItem now item) s = snd (handleLogItem e now item s)"
| "step e (SubmitTimer now) s = submit e False now s"
| "step e (BeforeUnload now) s = handleBeforeUnload e now s"
| "step e EndLifecycleRequest s = endLifecycleRequest s"
| "step e (SendFailed synchronously p) s = sendFailed e synchronously p s"
| "step e ResendTimer s = resendMessages e False s"
| "step e (ResendSucceeded k) s = resendSucceeded k s"

definition run :: "'v env \<Rightarrow> 'v event list \<Rightarrow> 'v engine \<Rightarrow> 'v engine" where
  "run e evs s = fold (step e) evs s"

section \<open>Notions used in the statements\<close>

text \<open>
  \<open>mkPost\<close> is the request that \<open>postTo\<close> issues. \<open>formatted\<close> is the message item
  that \<open>handleLogItem\<close> builds for a record, if formatting does not throw, and
  \<open>recordKey\<close> holds the four fields that \<open>markDuplicate\<close> compares.
  \<open>bump\<close> is the increment of the repetitions of an entry. \<open>attempts\<close> counts the
  requests that carry a payload, \<open>budget\<close> adds up the retries left of the queue
  entries with that payload, \<open>live\<close> are the entries that a timer fire keeps, and
  \<open>decremented\<close> is what it does to each of them.
\<close>

definition mkPost :: "'v env \<Rightarrow> string option \<Rightarrow> bool \<Rightarrow> 'v request \<Rightarrow> 'v post" where
  "mkPost e url synchronously r =
     \<lparr> post_url = url, post_headers = headers e, post_body = r,
       post_synchronously = synchronously \<rparr>"

definition bump :: "'v messageItem \<Rightarrow> 'v messageItem" where
  "bump p = p\<lparr> repetitions := repetitions p + 1 \<rparr>"

definition recordKey :: "'v messageItem \<Rightarrow> int \<times> string \<times> string \<times> string" where
  "recordKey m = (line m, file' m, level m, text' m)"

definition formatted :: "'v env \<Rightarrow> 'v logItem \<Rightarrow> 'v messageItem option" where
  "formatted e item =
     (case formatMessage e (item_text item) (item_replacements item) of
        Inl err \<Rightarrow> None
      | Inr textAndReplacements \<Rightarrow> Some (messageItemOf e item textAndReplacements))"

definition attempts :: "'v request \<Rightarrow> 'v post list \<Rightarrow> nat" where
  "attempts p posts = length (filter (\<lambda>q. post_body q = p) posts)"

definition budget :: "'v request \<Rightarrow> 'v pending list \<Rightarrow> nat" where
  "budget p queue = sum_list (map (\<lambda>item. nat (retriesLeft item))
                                (filter (\<lambda>item. payload item = p) queue))"

definition live :: "'v pending list \<Rightarrow> 'v pending list" where
  "live queue = filter (\<lambda>item. retriesLeft item > 0) queue"

definition decremented :: "'v pending \<Rightarrow> 'v pending" where
  "decremented item = item\<lparr> retriesLeft := retriesLeft item - 1 \<rparr>"

section \<open>The formatter as the specification describes it\<close>

text \<open>
  \<open>placeholder k\<close> is the reference \<open>[k:anonymize]\<close>. \<open>numbered\<close> is the formatting in
  which the \<open>k\<close>-th call of the anonymization, counted from \<open>0\<close>, yields the reference
  \<open>[k:anonymize]\<close> and the side list holds the values of the calls in their order;
  \<open>onReplacements\<close> changes the side list of a result. \<open>calls\<close> lists the calls of
  the mapper that \<open>runFormat\<close> goes through, each with its value and the string that the
  mapper returned. All are compared with \<open>runFormat\<close> below.

  \<open>splice\<close> is the formatting that writes literal output and the result of every call
  of the mapper into the text, as the library does for placeholders whose only mapper is
  \<open>anonymize\<close>. For it, \<open>placeholderText\<close> is the text with the \<open>k\<close>-th anonymized
  value, in order of occurrence, replaced by \<open>[k:anonymize]\<close>, and \<open>anonymized\<close> the
  side list.
\<close>

definition placeholder :: "nat \<Rightarrow> string" where
  "placeholder k = ''['' @ string_of_nat k @ '':anonymize]''"

fun onReplacements ::
  "('v list \<Rightarrow> 'v list) \<Rightarrow> string + (string \<times> 'v list) \<Rightarrow> string + (string \<times> 'v list)" where
  "onReplacements g (Inl err) = Inl err"
| "onReplacements g (Inr (t, vs)) = Inr (t, g vs)"

primrec numbered :: "'v formatting \<Rightarrow> nat \<Rightarrow> string + (string \<times> 'v list)" where
  "numbered (Returns t) k = Inr (t, [])"
| "numbered (Throws err) k = Inl err"
| "numbered (CallsAnonymize v continue) k =
     onReplacements ((#) v) (numbered (continue (placeholder k)) (Suc k))"

primrec calls :: "'v formatting \<Rightarrow> 'v list \<Rightarrow> ('v \<times> string) list" where
  "calls (Returns t) anonymizeReplacements = []"
| "calls (Throws err) anonymizeReplacements = []"
| "calls (CallsAnonymize v continue) anonymizeReplacements =
     (case anonymize v anonymizeReplacements of
        (t, pushed) \<Rightarrow> (v, t) # calls (continue t) pushed)"

datatype 'v piece = Lit string | Anonymize 'v

fun splice :: "'v piece list \<Rightarrow> string \<Rightarrow> 'v formatting" where
  "splice [] out = Returns out"
| "splice (Lit t # ps) out = splice ps (out @ t)"
| "splice (Anonymize v # ps) out = CallsAnonymize v (\<lambda>t. splice ps (out @ t))"

fun placeholderText :: "nat \<Rightarrow> 'v piece list \<Rightarrow> string" where
  "placeholderText k [] = []"
| "placeholderText k (Lit t # ps) = t @ placeholderText k ps"
| "placeholderText k (Anonymize v # ps) = placeholder k @ placeholderText (Suc k) ps"

fun anonymized :: "'v piece list \<Rightarrow> 'v list" where
  "anonymized [] = []"
| "anonymized (Lit t # ps) = anonymized ps"
| "anonymized (Anonymize v # ps) = v # anonymized ps"

section \<open>An example configuration\<close>

text \<open>
  A configuration, records and states for closed instances of the statements below.
  \<open>exampleFormatter\<close> holds what the library does on the templates of these instances,
  for replacements that are strings: a template without bracket and backslash is returned
  as it is; the template \<open>[\<close> makes the library throw (\<open>unterminated\<close> is its message);
  in \<open>[1:anonymize] then [0:anonymize]\<close> every placeholder with a replacement calls the
  mapper once and its result is written into the text; in \<open>[0:anonymize:anonymize]\<close> the
  result of the first call is handed to the mapper again. Other templates are not part of
  the table.
\<close>

definition unterminated :: string where
  "unterminated =
     ''Unterminated placeholder at index 0 of string: '' @ [CHR 0x22] @ ''['' @ [CHR 0x22] @ ''.''"

definition exampleFormatter :: "string \<Rightarrow> string list \<Rightarrow> string formatting" where
  "exampleFormatter t r =
     (if CHR ''['' \<notin> set t \<and> CHR 0x5C \<notin> set t then Returns t
      else if t = ''['' then Throws unterminated
      else if t = ''[1:anonymize] then [0:anonymize]'' then
        splice
          ((if 1 < length r then [Anonymize (r ! 1)] else [Lit ''[1:anonymize]'']) @
           [Lit '' then ''] @
           (if 0 < length r then [Anonymize (r ! 0)] else [Lit ''[0:anonymize]''])) []
      else if t = ''[0:anonymize:anonymize]'' then
        (if 0 < length r
         then CallsAnonymize (r ! 0) (\<lambda>first. CallsAnonymize first Returns)
         else Returns t)
      else Throws ''template outside the examples'')"

definition exampleEnv :: "string env" where
  "exampleEnv =
     \<lparr> logging_enabled = True, resourceUrl = Some ''/log'', instanceId = ''i1'',
       instanceId_enabled = False, instanceId_header = ''x-instance'',
       threshold_messages = 3, threshold_seconds = 5, retry_enabled = True,
       retry_seconds = 2, retry_retries = 3, requestPolicy = ''BATCH'',
       origin = ''http://localhost'', formatter = exampleFormatter \<rparr>"

definition noRetryEnv :: "string env" where
  "noRetryEnv = exampleEnv\<lparr> retry_enabled := False \<rparr>"

definition perMessageEnv :: "string env" where
  "perMessageEnv =
     exampleEnv\<lparr> requestPolicy := ''PER_MESSAGE'', retry_enabled := False,
       threshold_messages := 10 \<rparr>"

definition exampleItem :: "int \<Rightarrow> string \<Rightarrow> string list \<Rightarrow> string logItem" where
  "exampleItem i t r =
     \<lparr> item_id = i, item_level = ''ERROR'', item_text = t, item_replacements = r,
       item_tags = [(''INST'', ''i1'')], item_time = ''2017-01-01T00:00:00.000Z'',
       sourceInfo_file = ''a.js'', sourceInfo_line = 10 \<rparr>"

definition exampleMessage :: "string \<Rightarrow> nat \<Rightarrow> string messageItem" where
  "exampleMessage t n =
     \<lparr> file' = ''a.js'', line = 10, level = ''ERROR'', repetitions = n, replacements = [],
       tags = [''INST:i1''], text' = t, time = ''2017-01-01T00:00:00.000Z'' \<rparr>"

definition exampleStream :: "(int \<times> string logItem) list" where
  "exampleStream =
     [(1000, exampleItem 1 ''a'' []), (2000, exampleItem 2 ''b'' []),
      (3000, exampleItem 3 ''c'' [])]"

definition brokenStream :: "(int \<times> string logItem) list" where
  "brokenStream =
     [(1000, exampleItem 1 ''a'' []), (2000, exampleItem 2 ''['' []),
      (3000, exampleItem 3 ''c'' [])]"

definition examplePayload :: "string request" where
  "examplePayload = Batch [exampleMessage ''boom'' 1] ''http://localhost''"

definition started :: "string engine" where
  "started = create exampleEnv 0 initial"

definition oneBoom :: "string engine" where
  "oneBoom = snd (handleLogItem exampleEnv 4000 (exampleItem 1 ''boom'' []) started)"

definition fiveBooms :: "string engine" where
  "fiveBooms =
     ingest exampleEnv
       [(4000, exampleItem 1 ''boom'' []), (4001, exampleItem 2 ''boom'' []),
        (4002, exampleItem 3 ''boom'' []), (4003, exampleItem 4 ''boom'' []),
        (4004, exampleItem 5 ''boom'' [])] started"

definition exampleRun :: "string env \<Rightarrow> nat \<Rightarrow> string engine" where
  "exampleRun e n = ingest e (take n exampleStream) (create e 0 initial)"

definition flushedBoom :: "string engine" where
  "flushedBoom = submit exampleEnv False 5000 oneBoom"

definition threeTicks :: "string engine" where
  "threeTicks =
     run exampleEnv [ResendTimer, ResendTimer, ResendTimer]
       (sendFailed exampleEnv False examplePayload flushedBoom)"

section \<open>Auxiliary facts\<close>

subsection \<open>Submitting\<close>

lemma fold_send:
  "fold (send e sy) rs s = s\<lparr> sent := sent s @ map (mkPost e (logResourceUrl s) sy) rs \<rparr>"
proof (induction rs arbitrary: s)
  case Nil
  show ?case by simp
next
  case (Cons r rs)
  show ?case
    by (simp add: Cons.IH) (simp add: send_def postTo_def mkPost_def)
qed

lemma scheduleNextSubmit_fresh:
  "scheduleNextSubmit e now (s\<lparr> nextSubmit := None \<rparr>) =
     s\<lparr> nextSubmit := Some (now + ms (threshold_seconds e)),
        timeout := Some (ms (threshold_seconds e)) \<rparr>"
  by (simp add: scheduleNextSubmit_def truthy_def Let_def)

lemma submit_empty:
  "buffer s = [] \<Longrightarrow>
   submit e sy now s =
     s\<lparr> nextSubmit := Some (now + ms (threshold_seconds e)),
        timeout := Some (ms (threshold_seconds e)) \<rparr>"
  by (simp add: submit_def scheduleNextSubmit_fresh Let_def)

lemma submit_nonempty:
  "buffer s \<noteq> [] \<Longrightarrow>
   submit e sy now s =
     s\<lparr> nextSubmit := Some (now + ms (threshold_seconds e)),
        timeout := Some (ms (threshold_seconds e)),
        sent := sent s @ map (mkPost e (logResourceUrl s) sy) (chunks e (map markRepeated (buffer s))),
        buffer := [] \<rparr>"
  by (simp add: submit_def scheduleNextSubmit_fresh Let_def fold_send)

subsection \<open>The duplicate check\<close>

lemma markDuplicate_Nil: "markDuplicate m [] = None"
  by (simp add: markDuplicate_def markDuplicateLoop.simps)

lemma markDuplicate_cases:
  "markDuplicate m buf =
     (let n = length buf in
      if 1 \<le> n \<and> sameRecord m (buf ! (n - 1)) then Some (buf[n - 1 := bump (buf ! (n - 1))])
      else if 2 \<le> n \<and> sameRecord m (buf ! (n - 2)) then Some (buf[n - 2 := bump (buf ! (n - 2))])
      else None)"
proof -
  let ?n = "int (length buf)"
  have step3: "markDuplicateLoop m buf ?n (?n - 3) = None"
    by (subst markDuplicateLoop.simps) (simp add: numItemsToCheck_def)
  have nat1: "nat (?n - 1) = length buf - 1" by simp
  have nat2: "nat (?n - 2) = length buf - 2" by simp
  have step2: "markDuplicateLoop m buf ?n (?n - 2) =
      (if 2 \<le> length buf \<and> sameRecord m (buf ! (length buf - 2))
       then Some (buf[length buf - 2 := bump (buf ! (length buf - 2))]) else None)"
    by (subst markDuplicateLoop.simps)
       (auto simp add: numItemsToCheck_def Let_def nat2 step3 bump_def)
  have step1: "markDuplicateLoop m buf ?n (?n - 1) =
      (if 1 \<le> length buf \<and> sameRecord m (buf ! (length buf - 1))
       then Some (buf[length buf - 1 := bump (buf ! (length buf - 1))])
       else markDuplicateLoop m buf ?n (?n - 2))"
  proof (cases "buf = []")
    case True
    have "markDuplicateLoop m [] 0 (- 1) = None" "markDuplicateLoop m [] 0 (- 2) = None"
      by (subst markDuplicateLoop.simps, simp)+
    with True show ?thesis by simp
  next
    case False
    then have "1 \<le> length buf" by (cases buf) auto
    then show ?thesis
      by (subst markDuplicateLoop.simps)
         (auto simp add: numItemsToCheck_def Let_def nat1 bump_def)
  qed
  show ?thesis
    unfolding markDuplicate_def Let_def step1 step2 by auto
qed

lemma markDuplicate_None:
  assumes "\<forall>p \<in> set buf. \<not> sameRecord m p"
  shows "markDuplicate m buf = None"
proof -
  have "1 \<le> length buf \<Longrightarrow> \<not> sameRecord m (buf ! (length buf - 1))"
    using assms by (simp add: nth_mem)
  moreover have "2 \<le> length buf \<Longrightarrow> \<not> sameRecord m (buf ! (length buf - 2))"
    using assms by (simp add: nth_mem)
  ultimately show ?thesis
    by (auto simp add: markDuplicate_cases Let_def)
qed

lemma markDuplicate_Some:
  assumes "markDuplicate m buf = Some buf'"
  shows "\<exists>i < length buf. length buf - 2 \<le> i \<and> sameRecord m (buf ! i) \<and>
           buf' = buf[i := bump (buf ! i)]"
proof -
  let ?n = "length buf"
  from assms consider
      (last) "1 \<le> ?n" "sameRecord m (buf ! (?n - 1))" "buf' = buf[?n - 1 := bump (buf ! (?n - 1))]"
    | (prev) "2 \<le> ?n" "sameRecord m (buf ! (?n - 2))" "buf' = buf[?n - 2 := bump (buf ! (?n - 2))]"
    by (auto simp add: markDuplicate_cases Let_def split: if_splits)
  then show ?thesis
  proof cases
    case last
    then show ?thesis by (intro exI [of _ "?n - 1"]) auto
  next
    case prev
    then show ?thesis by (intro exI [of _ "?n - 2"]) auto
  qed
qed

lemma markDuplicate_iff:
  "markDuplicate m buf \<noteq> None \<longleftrightarrow> (\<exists>p \<in> set (drop (length buf - 2) buf). sameRecord m p)"
proof
  assume "markDuplicate m buf \<noteq> None"
  then obtain buf' where "markDuplicate m buf = Some buf'" by auto
  from markDuplicate_Some [OF this] obtain i where
    i: "i < length buf" "length buf - 2 \<le> i" "sameRecord m (buf ! i)" by blast
  then have "buf ! i \<in> set (drop (length buf - 2) buf)"
    by (auto simp add: in_set_conv_nth intro!: exI [of _ "i - (length buf - 2)"])
  with i show "\<exists>p \<in> set (drop (length buf - 2) buf). sameRecord m p" by blast
next
  assume "\<exists>p \<in> set (drop (length buf - 2) buf). sameRecord m p"
  then obtain j where j: "j < length buf - (length buf - 2)"
      "sameRecord m (buf ! (length buf - 2 + j))"
    by (auto simp add: in_set_conv_nth)
  then have "j = 0 \<or> j = 1" by arith
  then show "markDuplicate m buf \<noteq> None"
  proof
    assume "j = 0"
    with j show ?thesis
      by (cases "length buf = 1") (auto simp add: markDuplicate_cases Let_def)
  next
    assume "j = 1"
    with j have "1 \<le> length buf" "length buf - 2 + 1 = length buf - 1" by arith+
    with j \<open>j = 1\<close> show ?thesis
      by (auto simp add: markDuplicate_cases Let_def)
  qed
qed

subsection \<open>The branches of handleLogItem\<close>

lemma handleLogItem_stale:
  "item_id item \<le> lastMessageId s \<Longrightarrow> handleLogItem e now item s = (None, s)"
  by (simp add: handleLogItem_def)

lemma handleLogItem_throws:
  "lastMessageId s < item_id item \<Longrightarrow>
   formatMessage e (item_text item) (item_replacements item) = Inl err \<Longrightarrow>
   handleLogItem e now item s = (Some err, s\<lparr> lastMessageId := item_id item \<rparr>)"
  by (simp add: handleLogItem_def)

lemma handleLogItem_merged:
  "lastMessageId s < item_id item \<Longrightarrow>
   formatMessage e (item_text item) (item_replacements item) = Inr tr \<Longrightarrow>
   markDuplicate (messageItemOf e item tr) (buffer s) = Some buf \<Longrightarrow>
   handleLogItem e now item s = (None, s\<lparr> lastMessageId := item_id item, buffer := buf \<rparr>)"
  by (simp add: handleLogItem_def)

lemma handleLogItem_appended:
  "lastMessageId s < item_id item \<Longrightarrow>
   formatMessage e (item_text item) (item_replacements item) = Inr tr \<Longrightarrow>
   markDuplicate (messageItemOf e item tr) (buffer s) = None \<Longrightarrow>
   int (length (buffer s)) + 1 < threshold_messages e \<Longrightarrow>
   handleLogItem e now item s =
     (None, s\<lparr> lastMessageId := item_id item,
                buffer := buffer s @ [messageItemOf e item tr] \<rparr>)"
  by (simp add: handleLogItem_def Let_def)

lemma handleLogItem_flushed:
  "lastMessageId s < item_id item \<Longrightarrow>
   formatMessage e (item_text item) (item_replacements item) = Inr tr \<Longrightarrow>
   markDuplicate (messageItemOf e item tr) (buffer s) = None \<Longrightarrow>
   threshold_messages e \<le> int (length (buffer s)) + 1 \<Longrightarrow>
   handleLogItem e now item s =
     (None, submit e False now
        (s\<lparr> lastMessageId := item_id item,
            buffer := buffer s @ [messageItemOf e item tr] \<rparr>))"
  by (simp add: handleLogItem_def Let_def)

lemma handleLogItem_flushed_eq:
  assumes "lastMessageId s < item_id item"
    and "formatMessage e (item_text item) (item_replacements item) = Inr tr"
    and "markDuplicate (messageItemOf e item tr) (buffer s) = None"
    and "threshold_messages e \<le> int (length (buffer s)) + 1"
  shows "handleLogItem e now item s =
     (None, s\<lparr> lastMessageId := item_id item,
                nextSubmit := Some (now + ms (threshold_seconds e)),
                timeout := Some (ms (threshold_seconds e)),
                sent := sent s @ map (mkPost e (logResourceUrl s) False)
                   (chunks e (map markRepeated (buffer s @ [messageItemOf e item tr]))),
                buffer := [] \<rparr>)"
  by (simp add: handleLogItem_flushed [OF assms] submit_nonempty)

subsection \<open>The last seen id\<close>

lemma lastMessageId_submit [simp]: "lastMessageId (submit e sy now s) = lastMessageId s"
  by (cases "buffer s = []") (simp_all add: submit_empty submit_nonempty)

lemma lastMessageId_handleLogItem:
  "lastMessageId (snd (handleLogItem e now item s)) = max (lastMessageId s) (item_id item)"
  by (simp add: handleLogItem_def Let_def split: sum.splits option.splits)

lemma lastMessageId_ingest_ge: "lastMessageId s \<le> lastMessageId (ingest e xs s)"
proof (induction xs arbitrary: s)
  case Nil
  show ?case by simp
next
  case (Cons x xs)
  have "lastMessageId s \<le> lastMessageId (snd (handleLogItem e (fst x) (snd x) s))"
    by (simp add: lastMessageId_handleLogItem)
  also have "\<dots> \<le> lastMessageId (ingest e (x # xs) s)"
    using Cons.IH by simp
  finally show ?case .
qed

lemma lastMessageId_ingest_member:
  "x \<in> set xs \<Longrightarrow> item_id (snd x) \<le> lastMessageId (ingest e xs s)"
proof (induction xs arbitrary: s)
  case Nil
  then show ?case by simp
next
  case (Cons y ys)
  show ?case
  proof (cases "x = y")
    case True
    have "item_id (snd x) \<le> lastMessageId (snd (handleLogItem e (fst y) (snd y) s))"
      using True by (simp add: lastMessageId_handleLogItem)
    also have "\<dots> \<le> lastMessageId (ingest e (y # ys) s)"
      using lastMessageId_ingest_ge [of _ e ys] by simp
    finally show ?thesis .
  next
    case False
    with Cons.prems have "x \<in> set ys" by simp
    from Cons.IH [OF this] show ?thesis by simp
  qed
qed

lemma ingest_stale:
  "\<forall>y \<in> set ys. item_id (snd y) \<le> lastMessageId s \<Longrightarrow> ingest e ys s = s"
  by (induction ys) (simp_all add: handleLogItem_stale)

subsection \<open>Length of the buffer\<close>

lemma buffer_submit [simp]: "buffer (submit e sy now s) = []"
  by (cases "buffer s = []") (simp_all add: submit_empty submit_nonempty)

lemma fold_postTo_buffer:
  "buffer (fold (\<lambda>item. postTo e url (payload item) sy) queue s) = buffer s"
  by (induction queue arbitrary: s) (simp_all add: postTo_def)

lemma resendMessages_buffer: "buffer (resendMessages e sy s) = buffer s"
  by (simp add: resendMessages_def Let_def fold_postTo_buffer)

lemma length_buffer_handleLogItem:
  "length (buffer (snd (handleLogItem e now item s))) \<le> length (buffer s) + 1"
proof -
  have "length buf = length (buffer s)"
    if "markDuplicate m (buffer s) = Some buf" for m buf
    using markDuplicate_Some [OF that] by auto
  then show ?thesis
    by (auto simp add: handleLogItem_def Let_def split: sum.splits option.splits)
qed

lemma sameRecord_bump [simp]: "sameRecord m (bump p) = sameRecord m p"
  by (simp add: sameRecord_def bump_def)

lemma markDuplicate_snoc_same:
  "sameRecord m p \<Longrightarrow> markDuplicate m (buf @ [p]) = Some (buf @ [bump p])"
  by (simp add: markDuplicate_cases Let_def)

lemma markDuplicate_again:
  assumes "markDuplicate m buf = Some buf'" and "sameRecord m' = sameRecord m"
  shows "markDuplicate m' buf' \<noteq> None"
proof -
  from markDuplicate_Some [OF assms(1)] obtain i where
    i: "i < length buf" "length buf - 2 \<le> i" "sameRecord m (buf ! i)"
       "buf' = buf[i := bump (buf ! i)]" by blast
  then have "buf' ! i \<in> set (drop (length buf' - 2) buf')"
    by (auto simp add: in_set_conv_nth intro!: exI [of _ "i - (length buf - 2)"])
  moreover have "sameRecord m' (buf' ! i)" using i assms(2) by simp
  ultimately show ?thesis
    unfolding markDuplicate_iff by blast
qed

lemma handleLogItem_grows:
  assumes "length (buffer (snd (handleLogItem e now item s))) = length (buffer s) + 1"
  shows "\<exists>tr. formatMessage e (item_text item) (item_replacements item) = Inr tr \<and>
           buffer (snd (handleLogItem e now item s)) = buffer s @ [messageItemOf e item tr]"
proof -
  have "length buf = length (buffer s)"
    if "markDuplicate m (buffer s) = Some buf" for m buf
    using markDuplicate_Some [OF that] by auto
  with assms show ?thesis
    by (auto simp add: handleLogItem_def Let_def split: sum.splits option.splits if_splits)
qed

lemma consecutive_identical:
  assumes "item_text it2 = item_text it1" "item_replacements it2 = item_replacements it1"
    and "item_level it2 = item_level it1" "sourceInfo_file it2 = sourceInfo_file it1"
    and "sourceInfo_line it2 = sourceInfo_line it1"
  shows "length (buffer (snd (handleLogItem e now2 it2 (snd (handleLogItem e now1 it1 s)))))
           \<le> length (buffer s) + 1"
proof -
  let ?s1 = "snd (handleLogItem e now1 it1 s)"
  let ?s2 = "snd (handleLogItem e now2 it2 ?s1)"
  have le1: "length (buffer ?s1) \<le> length (buffer s) + 1"
    by (rule length_buffer_handleLogItem)
  show ?thesis
  proof (cases "length (buffer ?s1) = length (buffer s) + 1")
    case False
    with le1 have "length (buffer ?s1) \<le> length (buffer s)" by simp
    moreover have "length (buffer ?s2) \<le> length (buffer ?s1) + 1"
      by (rule length_buffer_handleLogItem)
    ultimately show ?thesis by simp
  next
    case True
    from handleLogItem_grows [OF True] obtain tr where
      tr: "formatMessage e (item_text it1) (item_replacements it1) = Inr tr"
          "buffer ?s1 = buffer s @ [messageItemOf e it1 tr]" by blast
    show ?thesis
    proof (cases "item_id it2 \<le> lastMessageId ?s1")
      case True
      then have "?s2 = ?s1" by (simp add: handleLogItem_stale)
      with le1 show ?thesis by simp
    next
      case False
      then have fresh: "lastMessageId ?s1 < item_id it2" by simp
      have fmt: "formatMessage e (item_text it2) (item_replacements it2) = Inr tr"
        using tr(1) assms by simp
      have "sameRecord (messageItemOf e it2 tr) (messageItemOf e it1 tr)"
        using assms by (simp add: sameRecord_def messageItemOf_def)
      then have "markDuplicate (messageItemOf e it2 tr) (buffer ?s1) =
          Some (buffer s @ [bump (messageItemOf e it1 tr)])"
        unfolding tr(2) by (rule markDuplicate_snoc_same)
      from handleLogItem_merged [OF fresh fmt this]
      show ?thesis by simp
    qed
  qed
qed

lemma sameRecord_messageItemOf:
  "sameRecord (messageItemOf e item tr) p \<longleftrightarrow>
     file' p = sourceInfo_file item \<and> line p = sourceInfo_line item \<and>
     level p = item_level item \<and> text' p = fst tr"
  by (auto simp add: sameRecord_def messageItemOf_def)

subsection \<open>Formatting\<close>

lemma anonymize_eq: "anonymize v acc = (placeholder (length acc), acc @ [v])"
  by (simp add: anonymize_def placeholder_def)

lemma onReplacements_twice:
  "onReplacements g (onReplacements h x) = onReplacements (\<lambda>vs. g (h vs)) x"
proof (cases x)
  case (Inl err)
  then show ?thesis by simp
next
  case (Inr y)
  then show ?thesis by (cases y) simp
qed

lemma onReplacements_Nil: "onReplacements ((@) []) x = x"
proof (cases x)
  case (Inl err)
  then show ?thesis by simp
next
  case (Inr y)
  then show ?thesis by (cases y) simp
qed

lemma runFormat_numbered:
  "runFormat p acc = onReplacements ((@) acc) (numbered p (length acc))"
proof (induction p arbitrary: acc)
  case (Returns t)
  show ?case by simp
next
  case (Throws err)
  show ?case by simp
next
  case (CallsAnonymize v continue)
  have "runFormat (continue (placeholder (length acc))) (acc @ [v]) =
      onReplacements ((@) (acc @ [v]))
        (numbered (continue (placeholder (length acc))) (length (acc @ [v])))"
    by (rule CallsAnonymize.IH) simp
  moreover have "(\<lambda>vs. acc @ v # vs) = (@) (acc @ [v])"
    by (rule ext) simp
  ultimately show ?case
    by (simp add: anonymize_eq onReplacements_twice)
qed

lemma runFormat_map:
  "runFormat (map_formatting f p) (map f acc) = onReplacements (map f) (runFormat p acc)"
proof (induction p arbitrary: acc)
  case (Returns t)
  show ?case by simp
next
  case (Throws err)
  show ?case by simp
next
  case (CallsAnonymize v continue)
  have "runFormat (map_formatting f (continue (placeholder (length acc)))) (map f (acc @ [v])) =
      onReplacements (map f) (runFormat (continue (placeholder (length acc))) (acc @ [v]))"
    by (rule CallsAnonymize.IH) simp
  then show ?case
    by (simp add: anonymize_eq)
qed

lemma calls_numbered:
  "runFormat p acc = Inr (t, side) \<Longrightarrow>
   \<exists>vs. side = acc @ vs \<and>
     calls p acc = zip vs (map placeholder [length acc..<length acc + length vs])"
proof (induction p arbitrary: acc)
  case (Returns t')
  then show ?case by simp
next
  case (Throws err)
  then show ?case by simp
next
  case (CallsAnonymize v continue)
  let ?n = "length acc"
  from CallsAnonymize.prems
  have run: "runFormat (continue (placeholder ?n)) (acc @ [v]) = Inr (t, side)"
    by (simp add: anonymize_eq)
  have "\<exists>vs. side = (acc @ [v]) @ vs \<and>
      calls (continue (placeholder ?n)) (acc @ [v]) =
        zip vs (map placeholder [length (acc @ [v])..<length (acc @ [v]) + length vs])"
    by (rule CallsAnonymize.IH [OF _ run]) simp
  then obtain vs where vs: "side = (acc @ [v]) @ vs"
    "calls (continue (placeholder ?n)) (acc @ [v]) =
       zip vs (map placeholder [Suc ?n..<Suc ?n + length vs])"
    by auto
  have "[?n..<?n + length (v # vs)] = ?n # [Suc ?n..<Suc ?n + length vs]"
    by (subst upt_rec) simp
  with vs show ?case
    by (intro exI [of _ "v # vs"]) (simp add: anonymize_eq del: upt_Suc)
qed

lemma runFormat_splice:
  "runFormat (splice ps out) acc =
     Inr (out @ placeholderText (length acc) ps, acc @ anonymized ps)"
proof (induction ps out arbitrary: acc rule: splice.induct)
  case (1 out)
  show ?case by simp
next
  case (2 t ps out)
  then show ?case by simp
next
  case (3 v ps out)
  then show ?case by (simp add: anonymize_eq)
qed

lemma placeholderText_append:
  "placeholderText k (pre @ ps) =
     placeholderText k pre @ placeholderText (k + length (anonymized pre)) ps"
proof (induction pre arbitrary: k)
  case Nil
  show ?case by simp
next
  case (Cons p pre)
  show ?case by (cases p) (simp_all add: Cons.IH)
qed

lemma anonymized_append: "anonymized (pre @ ps) = anonymized pre @ anonymized ps"
proof (induction pre)
  case Nil
  show ?case by simp
next
  case (Cons p pre)
  then show ?case by (cases p) simp_all
qed

subsection \<open>Before unload\<close>

lemma sendFailed_synchronously: "sendFailed e True p s = s"
  by (simp add: sendFailed_def)

lemma handleBeforeUnload_eq:
  "handleBeforeUnload e now s =
     s\<lparr> nextSubmit := Some (now + ms (threshold_seconds e)), timeout := None,
        retryTimeout := None,
        sent := sent s @
          (if buffer s = [] then []
           else map (mkPost e (logResourceUrl s) True) (chunks e (map markRepeated (buffer s)))),
        buffer := [] \<rparr>"
  by (cases "buffer s = []")
     (simp_all add: handleBeforeUnload_def Let_def submit_empty submit_nonempty)

subsection \<open>Runs of distinct records\<close>

lemma sameRecord_recordKey: "sameRecord m p \<longleftrightarrow> recordKey m = recordKey p"
  by (auto simp add: sameRecord_def recordKey_def)

lemma formatted_Some:
  assumes "formatted e item = Some m"
  obtains tr where "formatMessage e (item_text item) (item_replacements item) = Inr tr"
    and "m = messageItemOf e item tr"
  using assms by (auto simp add: formatted_def split: sum.splits)

lemma handleLogItem_distinct:
  assumes fresh: "lastMessageId s < item_id item"
    and fmt: "formatted e item = Some m"
    and new: "recordKey m \<notin> recordKey ` set (buffer s)"
  shows "handleLogItem e now item s =
     (None,
      if int (length (buffer s)) + 1 < threshold_messages e
      then s\<lparr> lastMessageId := item_id item, buffer := buffer s @ [m] \<rparr>
      else s\<lparr> lastMessageId := item_id item,
              nextSubmit := Some (now + ms (threshold_seconds e)),
              timeout := Some (ms (threshold_seconds e)),
              sent := sent s @ map (mkPost e (logResourceUrl s) False)
                 (chunks e (map markRepeated (buffer s @ [m]))),
              buffer := [] \<rparr>)"
proof -
  from fmt obtain tr where
    tr: "formatMessage e (item_text item) (item_replacements item) = Inr tr"
        "m = messageItemOf e item tr"
    by (rule formatted_Some)
  have "\<forall>p \<in> set (buffer s). \<not> sameRecord m p"
    using new by (auto simp add: sameRecord_recordKey)
  then have none: "markDuplicate (messageItemOf e item tr) (buffer s) = None"
    unfolding tr(2) [symmetric] by (rule markDuplicate_None)
  show ?thesis
  proof (cases "int (length (buffer s)) + 1 < threshold_messages e")
    case True
    from handleLogItem_appended [OF fresh tr(1) none True] True show ?thesis
      by (simp add: tr(2))
  next
    case False
    then have "threshold_messages e \<le> int (length (buffer s)) + 1" by simp
    from handleLogItem_flushed_eq [OF fresh tr(1) none this] False show ?thesis
      by (simp add: tr(2))
  qed
qed

lemma ingest_run:
  fixes e :: "'v env"
  assumes t: "threshold_messages e = int t"
  shows "length (buffer s) < t \<Longrightarrow> length xs \<le> t \<Longrightarrow>
     map (\<lambda>x. formatted e (snd x)) xs = map Some msgs \<Longrightarrow>
     sorted_wrt (<) (lastMessageId s # map (\<lambda>x. item_id (snd x)) xs) \<Longrightarrow>
     distinct (map recordKey msgs) \<Longrightarrow>
     recordKey ` set msgs \<inter> recordKey ` set (buffer s) = {} \<Longrightarrow>
     ingest e xs s =
       (if length (buffer s) + length xs < t
        then s\<lparr> lastMessageId := last (lastMessageId s # map (\<lambda>x. item_id (snd x)) xs),
                buffer := buffer s @ msgs \<rparr>
        else s\<lparr> lastMessageId := last (lastMessageId s # map (\<lambda>x. item_id (snd x)) xs),
                nextSubmit :=
                  Some (fst (xs ! (t - length (buffer s) - 1)) + ms (threshold_seconds e)),
                timeout := Some (ms (threshold_seconds e)),
                sent := sent s @ map (mkPost e (logResourceUrl s) False)
                   (chunks e (map markRepeated (buffer s @ take (t - length (buffer s)) msgs))),
                buffer := drop (t - length (buffer s)) msgs \<rparr>)"
proof (induction xs arbitrary: s msgs)
  case Nil
  then show ?case by simp
next
  case (Cons x xs)
  from Cons.prems(3) obtain m msgs' where
    msgs: "msgs = m # msgs'" and m: "formatted e (snd x) = Some m"
    and msgs': "map (\<lambda>x. formatted e (snd x)) xs = map Some msgs'"
    by (cases msgs) auto
  have fresh: "lastMessageId s < item_id (snd x)"
    using Cons.prems(4) by simp
  have new: "recordKey m \<notin> recordKey ` set (buffer s)"
    using Cons.prems(6) msgs by auto
  let ?s1 = "snd (handleLogItem e (fst x) (snd x) s)"
  note step = handleLogItem_distinct [OF fresh m new, of "fst x"]
  have sorted': "sorted_wrt (<) (item_id (snd x) # map (\<lambda>x. item_id (snd x)) xs)"
    using Cons.prems(4) by simp
  have dist': "distinct (map recordKey msgs')"
    using Cons.prems(5) msgs by simp
  show ?case
  proof (cases "length (buffer s) + 1 < t")
    case True
    then have s1: "?s1 = s\<lparr> lastMessageId := item_id (snd x), buffer := buffer s @ [m] \<rparr>"
      using step t by simp
    have disj': "recordKey ` set msgs' \<inter> recordKey ` set (buffer ?s1) = {}"
      using Cons.prems(5,6) msgs by (auto simp add: s1)
    have "ingest e xs ?s1 =
       (if length (buffer ?s1) + length xs < t
        then ?s1\<lparr> lastMessageId := last (lastMessageId ?s1 # map (\<lambda>x. item_id (snd x)) xs),
                buffer := buffer ?s1 @ msgs' \<rparr>
        else ?s1\<lparr> lastMessageId := last (lastMessageId ?s1 # map (\<lambda>x. item_id (snd x)) xs),
                nextSubmit :=
                  Some (fst (xs ! (t - length (buffer ?s1) - 1)) + ms (threshold_seconds e)),
                timeout := Some (ms (threshold_seconds e)),
                sent := sent ?s1 @ map (mkPost e (logResourceUrl ?s1) False)
                   (chunks e (map markRepeated (buffer ?s1 @ take (t - length (buffer ?s1)) msgs'))),
                buffer := drop (t - length (buffer ?s1)) msgs' \<rparr>)"
    proof (rule Cons.IH [OF _ _ msgs' _ dist' disj'])
      show "length (buffer ?s1) < t" using True by (simp add: s1)
      show "length xs \<le> t" using Cons.prems(2) by simp
      show "sorted_wrt (<) (lastMessageId ?s1 # map (\<lambda>x. item_id (snd x)) xs)"
        using sorted' by (simp add: s1)
    qed
    moreover have "t - length (buffer s) = Suc (t - Suc (length (buffer s)))"
      using True by simp
    ultimately show ?thesis
      using True by (simp add: s1 msgs)
  next
    case False
    with Cons.prems(1) have k: "t = Suc (length (buffer s))" by simp
    have s1: "?s1 = s\<lparr> lastMessageId := item_id (snd x),
              nextSubmit := Some (fst x + ms (threshold_seconds e)),
              timeout := Some (ms (threshold_seconds e)),
              sent := sent s @ map (mkPost e (logResourceUrl s) False)
                 (chunks e (map markRepeated (buffer s @ [m]))),
              buffer := [] \<rparr>"
      using step t k by simp
    have "ingest e xs ?s1 =
       (if length (buffer ?s1) + length xs < t
        then ?s1\<lparr> lastMessageId := last (lastMessageId ?s1 # map (\<lambda>x. item_id (snd x)) xs),
                buffer := buffer ?s1 @ msgs' \<rparr>
        else ?s1\<lparr> lastMessageId := last (lastMessageId ?s1 # map (\<lambda>x. item_id (snd x)) xs),
                nextSubmit :=
                  Some (fst (xs ! (t - length (buffer ?s1) - 1)) + ms (threshold_seconds e)),
                timeout := Some (ms (threshold_seconds e)),
                sent := sent ?s1 @ map (mkPost e (logResourceUrl ?s1) False)
                   (chunks e (map markRepeated (buffer ?s1 @ take (t - length (buffer ?s1)) msgs'))),
                buffer := drop (t - length (buffer ?s1)) msgs' \<rparr>)"
    proof (rule Cons.IH [OF _ _ msgs' _ dist'])
      show "length (buffer ?s1) < t" using k by (simp add: s1)
      show "length xs \<le> t" using Cons.prems(2) by simp
      show "sorted_wrt (<) (lastMessageId ?s1 # map (\<lambda>x. item_id (snd x)) xs)"
        using sorted' by (simp add: s1)
      show "recordKey ` set msgs' \<inter> recordKey ` set (buffer ?s1) = {}"
        by (simp add: s1)
    qed
    moreover have "length xs < t" using Cons.prems(2) by simp
    ultimately show ?thesis
      using k by (simp add: s1 msgs)
  qed
qed

lemma buffer_bound_handleLogItem:
  assumes "threshold_messages e = int t" and "length (buffer s) < t"
  shows "length (buffer (snd (handleLogItem e now item s))) < t"
proof -
  have "length buf = length (buffer s)"
    if "markDuplicate m (buffer s) = Some buf" for m buf
    using markDuplicate_Some [OF that] by auto
  with assms show ?thesis
    by (auto simp add: handleLogItem_def Let_def split: sum.splits option.splits)
qed

lemma buffer_create: "buffer (create e now s) = [] \<or> buffer (create e now s) = buffer s"
  by (simp add: create_def Let_def scheduleNextSubmit_def scheduleNextResend_def
        split: option.splits)

lemma buffer_bound_step:
  assumes "threshold_messages e = int t" and "length (buffer s) < t"
  shows "length (buffer (step e ev s)) < t"
proof (cases ev)
  case (Create now)
  with buffer_create [of e now s] assms(2) show ?thesis by auto
next
  case (LogItem now item)
  with buffer_bound_handleLogItem [OF assms] show ?thesis by simp
next
  case (SubmitTimer now)
  with assms(2) show ?thesis by simp
next
  case (BeforeUnload now)
  with assms(2) show ?thesis by (simp add: handleBeforeUnload_eq)
next
  case EndLifecycleRequest
  with assms(2) show ?thesis by (simp add: endLifecycleRequest_def)
next
  case (SendFailed sy p)
  with assms(2) show ?thesis
    by (simp add: sendFailed_def scheduleNextResend_def Let_def)
next
  case ResendTimer
  with assms(2) show ?thesis by (simp add: resendMessages_buffer)
next
  case (ResendSucceeded k)
  with assms(2) show ?thesis by (simp add: resendSucceeded_def)
qed

lemma buffer_bound_run:
  assumes "threshold_messages e = int t"
  shows "length (buffer s) < t \<Longrightarrow> length (buffer (run e evs s)) < t"
  unfolding run_def
proof (induction evs arbitrary: s)
  case Nil
  then show ?case by simp
next
  case (Cons ev evs)
  from buffer_bound_step [OF assms Cons.prems] have "length (buffer (step e ev s)) < t" .
  from Cons.IH [OF this] show ?case by simp
qed

subsection \<open>Runs without a request\<close>

lemma chunks_nonempty: "buf \<noteq> [] \<Longrightarrow> chunks e buf \<noteq> []"
  by (simp add: chunks_def)

lemma handleLogItem_sent:
  "(sent (snd (handleLogItem e now item s)) = sent s \<and>
    nextSubmit (snd (handleLogItem e now item s)) = nextSubmit s \<and>
    timeout (snd (handleLogItem e now item s)) = timeout s) \<or>
   (\<exists>ps. ps \<noteq> [] \<and> sent (snd (handleLogItem e now item s)) = sent s @ ps)"
  by (auto simp add: handleLogItem_def Let_def submit_nonempty chunks_nonempty
        split: sum.splits option.splits)

lemma ingest_sent_prefix: "\<exists>ps. sent (ingest e xs s) = sent s @ ps"
proof (induction xs arbitrary: s)
  case Nil
  show ?case by simp
next
  case (Cons x xs)
  from handleLogItem_sent [of e "fst x" "snd x" s]
  obtain ps1 where "sent (snd (handleLogItem e (fst x) (snd x) s)) = sent s @ ps1"
    by auto
  moreover from Cons.IH [of "snd (handleLogItem e (fst x) (snd x) s)"]
  obtain ps2 where "sent (ingest e (x # xs) s) =
      sent (snd (handleLogItem e (fst x) (snd x) s)) @ ps2"
    by auto
  ultimately show ?case by simp
qed

lemma ingest_quiet:
  "sent (ingest e xs s) = sent s \<Longrightarrow>
   nextSubmit (ingest e xs s) = nextSubmit s \<and> timeout (ingest e xs s) = timeout s"
proof (induction xs arbitrary: s)
  case Nil
  show ?case by simp
next
  case (Cons x xs)
  let ?s1 = "snd (handleLogItem e (fst x) (snd x) s)"
  from ingest_sent_prefix [of e xs ?s1]
  obtain ps2 where ps2: "sent (ingest e xs ?s1) = sent ?s1 @ ps2" by auto
  from handleLogItem_sent [of e "fst x" "snd x" s]
  show ?case
  proof
    assume same: "sent ?s1 = sent s \<and> nextSubmit ?s1 = nextSubmit s \<and> timeout ?s1 = timeout s"
    with Cons.prems have "sent (ingest e xs ?s1) = sent ?s1" by simp
    from Cons.IH [OF this] same show ?thesis by simp
  next
    assume "\<exists>ps. ps \<noteq> [] \<and> sent ?s1 = sent s @ ps"
    then obtain ps1 where "ps1 \<noteq> []" "sent ?s1 = sent s @ ps1" by auto
    with ps2 Cons.prems have False by simp
    then show ?thesis ..
  qed
qed

lemma create_fresh:
  assumes "logging_enabled e" and "resourceUrl e = Some url" and "url \<noteq> []"
    and "\<not> truthy (nextSubmit s)"
  shows "nextSubmit (create e t0 s) = Some (t0 + ms (threshold_seconds e)) \<and>
         timeout (create e t0 s) = Some (ms (threshold_seconds e))"
  using assms
  by (simp add: create_def Let_def scheduleNextSubmit_def scheduleNextResend_def)

subsection \<open>The resend queue\<close>

lemma fold_postTo:
  "fold (\<lambda>item. postTo e url (payload item) sy) queue s =
     s\<lparr> sent := sent s @ map (\<lambda>item. mkPost e url sy (payload item)) queue \<rparr>"
proof (induction queue arbitrary: s)
  case Nil
  show ?case by simp
next
  case (Cons item queue)
  show ?case
    by (simp add: Cons.IH) (simp add: postTo_def mkPost_def)
qed

lemma resendMessages_eq:
  "resendMessages e sy s =
     s\<lparr> retryTimeout :=
          (if live (resendBuffer s) = [] then None
           else Some (case retryMilliseconds s of None \<Rightarrow> 0 | Some d \<Rightarrow> d)),
        resendBuffer := map decremented (live (resendBuffer s)),
        sent := sent s @
          map (\<lambda>item. mkPost e (logResourceUrl s) sy (payload item)) (live (resendBuffer s)) \<rparr>"
  by (simp add: resendMessages_def Let_def fold_postTo live_def decremented_def comp_def)

lemma attempts_append [simp]: "attempts p (xs @ ys) = attempts p xs + attempts p ys"
  by (simp add: attempts_def)

lemma tick_budget:
  "attempts p (map (\<lambda>item. mkPost e url sy (payload item)) (live queue)) +
     budget p (map decremented (live queue)) = budget p queue"
proof (induction queue)
  case Nil
  show ?case by (simp add: attempts_def budget_def live_def)
next
  case (Cons item queue)
  from Cons.IH show ?case
    by (auto simp add: attempts_def budget_def live_def decremented_def mkPost_def)
qed

lemma resendMessages_budget:
  "attempts p (sent (resendMessages e sy s)) + budget p (resendBuffer (resendMessages e sy s)) =
   attempts p (sent s) + budget p (resendBuffer s)"
  using tick_budget [of p e "logResourceUrl s" sy "resendBuffer s"]
  by (simp add: resendMessages_eq)

lemma resendSucceeded_budget:
  "budget p (resendBuffer (resendSucceeded k s)) \<le> budget p (resendBuffer s)"
proof -
  have "budget p (map (\<lambda>item. if entryId item = k then item\<lparr> retriesLeft := 0 \<rparr> else item) queue)
          \<le> budget p queue" for queue :: "'a pending list"
    by (induction queue) (auto simp add: budget_def)
  then show ?thesis by (simp add: resendSucceeded_def)
qed

lemma retry_run_budget:
  "set evs \<subseteq> insert ResendTimer (range ResendSucceeded) \<Longrightarrow>
   attempts p (sent (run e evs s)) + budget p (resendBuffer (run e evs s)) \<le>
   attempts p (sent s) + budget p (resendBuffer s)"
proof (induction evs arbitrary: s)
  case Nil
  show ?case by (simp add: run_def)
next
  case (Cons ev evs)
  from Cons.prems have rest: "set evs \<subseteq> insert ResendTimer (range ResendSucceeded)"
    and ev: "ev = ResendTimer \<or> (\<exists>k. ev = ResendSucceeded k)"
    by auto
  have run: "run e (ev # evs) s = run e evs (step e ev s)"
    by (simp add: run_def)
  have "attempts p (sent (step e ev s)) + budget p (resendBuffer (step e ev s)) \<le>
      attempts p (sent s) + budget p (resendBuffer s)"
  proof -
    from ev show ?thesis
    proof
      assume "ev = ResendTimer"
      then show ?thesis by (simp add: resendMessages_budget)
    next
      assume "\<exists>k. ev = ResendSucceeded k"
      then obtain k where k: "ev = ResendSucceeded k" ..
      have "sent (resendSucceeded k s) = sent s" by (simp add: resendSucceeded_def)
      with resendSucceeded_budget [of p k s] k show ?thesis by simp
    qed
  qed
  with Cons.IH [OF rest, of "step e ev s"] show ?case
    unfolding run by linarith
qed

lemma sendFailed_eq:
  "retry_enabled e \<Longrightarrow>
   sendFailed e False p s =
     s\<lparr> resendBuffer := resendBuffer s @
          [\<lparr> entryId = allocated s, payload = p, retriesLeft = retry_retries e \<rparr>],
        allocated := allocated s + 1,
        retryMilliseconds := Some (ms (retry_seconds e)),
        retryTimeout := Some (ms (retry_seconds e)) \<rparr>"
  by (simp add: sendFailed_def scheduleNextResend_def Let_def)

lemma succeeded_evicted:
  "\<forall>item \<in> set (resendBuffer (resendMessages e sy (resendSucceeded k s))). entryId item \<noteq> k"
proof
  fix item
  let ?f = "\<lambda>item :: 'a pending. if entryId item = k then item\<lparr> retriesLeft := 0 \<rparr> else item"
  assume "item \<in> set (resendBuffer (resendMessages e sy (resendSucceeded k s)))"
  then have "item \<in> decremented ` set (live (map ?f (resendBuffer s)))"
    by (simp add: resendMessages_eq resendSucceeded_def)
  then obtain j where j: "j \<in> set (resendBuffer s)" "retriesLeft (?f j) > 0"
      "item = decremented (?f j)"
    unfolding live_def by auto
  from j(2) have "entryId j \<noteq> k" by (cases "entryId j = k") simp_all
  with j(3) show "entryId item \<noteq> k" by (simp add: decremented_def)
qed

lemma budget_snoc:
  "budget p (queue @ [\<lparr> entryId = k, payload = p, retriesLeft = r \<rparr>]) = budget p queue + nat r"
  by (simp add: budget_def)

lemma succeeded_marked:
  "\<forall>item \<in> set (resendBuffer (resendSucceeded k s)).
     entryId item = k \<longrightarrow> retriesLeft item = 0"
proof (intro ballI impI)
  fix item
  let ?f = "\<lambda>item :: 'a pending. if entryId item = k then item\<lparr> retriesLeft := 0 \<rparr> else item"
  assume "item \<in> set (resendBuffer (resendSucceeded k s))" and k: "entryId item = k"
  then have "item \<in> ?f ` set (resendBuffer s)"
    by (simp add: resendSucceeded_def)
  then obtain j where j: "item = ?f j" by (rule imageE)
  show "retriesLeft item = 0"
  proof (cases "entryId j = k")
    case True
    with j show ?thesis by simp
  next
    case False
    with j k show ?thesis by simp
  qed
qed

subsection \<open>The example states\<close>

lemma started_eq:
  "started = initial\<lparr> logResourceUrl := Some ''/log'', logChannel := True,
      timeout := Some 5000, nextSubmit := Some 5000, unloadListener := True \<rparr>"
  by (simp add: started_def create_def exampleEnv_def initial_def Let_def
        scheduleNextSubmit_def truthy_def ms_def)

lemma example_formatted:
  "CHR ''['' \<notin> set t \<Longrightarrow> CHR 0x5C \<notin> set t \<Longrightarrow>
   formatted exampleEnv (exampleItem i t []) = Some (exampleMessage t 1)"
  by (simp add: formatted_def formatMessage_def exampleEnv_def exampleFormatter_def
        exampleItem_def exampleMessage_def messageItemOf_def itemTags_def)

lemma example_handle1:
  "handleLogItem exampleEnv 4000 (exampleItem 1 ''boom'' []) started =
     (None, started\<lparr> lastMessageId := 1, buffer := [exampleMessage ''boom'' 1] \<rparr>)"
  by (simp add: handleLogItem_def formatMessage_def exampleEnv_def exampleFormatter_def
        exampleItem_def exampleMessage_def messageItemOf_def itemTags_def started_eq
        initial_def markDuplicate_Nil Let_def)

lemmas example_simps =
  handleLogItem_def formatMessage_def exampleEnv_def exampleFormatter_def exampleItem_def
  exampleMessage_def messageItemOf_def itemTags_def started_eq initial_def Let_def
  markDuplicate_cases bump_def sameRecord_def

lemma oneBoom_eq:
  "oneBoom = started\<lparr> lastMessageId := 1, buffer := [exampleMessage ''boom'' 1] \<rparr>"
  by (simp add: oneBoom_def example_handle1)

lemma fiveBooms_eq:
  "fiveBooms = started\<lparr> lastMessageId := 5, buffer := [exampleMessage ''boom'' 5] \<rparr>"
  by (simp add: fiveBooms_def example_simps)

lemma exampleRun_2:
  assumes "logging_enabled e" "resourceUrl e = Some ''/log''" "formatter e = exampleFormatter"
    and "instanceId e = ''i1''" "threshold_seconds e = 5" "2 < threshold_messages e"
  shows "exampleRun e 2 = started\<lparr> lastMessageId := 2,
      buffer := [exampleMessage ''a'' 1, exampleMessage ''b'' 1] \<rparr>"
proof -
  have "create e 0 initial = started"
    using assms
    by (simp add: started_eq create_def initial_def Let_def scheduleNextSubmit_def
          truthy_def ms_def)
  then show ?thesis
    using assms
    by (simp add: exampleRun_def exampleStream_def handleLogItem_def formatMessage_def
          exampleFormatter_def exampleItem_def exampleMessage_def messageItemOf_def
          itemTags_def started_eq initial_def Let_def markDuplicate_cases sameRecord_def)
qed

lemma exampleRun_3:
  assumes "logging_enabled e" "resourceUrl e = Some ''/log''" "formatter e = exampleFormatter"
    and "instanceId e = ''i1''" "threshold_seconds e = 5" "3 < threshold_messages e"
  shows "exampleRun e 3 = started\<lparr> lastMessageId := 3,
      buffer := [exampleMessage ''a'' 1, exampleMessage ''b'' 1, exampleMessage ''c'' 1] \<rparr>"
proof -
  have "create e 0 initial = started"
    using assms
    by (simp add: started_eq create_def initial_def Let_def scheduleNextSubmit_def
          truthy_def ms_def)
  then show ?thesis
    using assms
    by (simp add: exampleRun_def exampleStream_def handleLogItem_def formatMessage_def
          exampleFormatter_def exampleItem_def exampleMessage_def messageItemOf_def
          itemTags_def started_eq initial_def Let_def markDuplicate_cases sameRecord_def)
qed

lemma exampleEnv_simps:
  "logging_enabled exampleEnv" "resourceUrl exampleEnv = Some ''/log''"
  "formatter exampleEnv = exampleFormatter" "instanceId exampleEnv = ''i1''"
  "threshold_seconds exampleEnv = 5" "threshold_messages exampleEnv = 3"
  "requestPolicy exampleEnv = ''BATCH''" "origin exampleEnv = ''http://localhost''"
  "retry_enabled exampleEnv" "retry_retries exampleEnv = 3" "retry_seconds exampleEnv = 2"
  "headers exampleEnv = []"
  by (simp_all add: exampleEnv_def headers_def)

lemma noRetryEnv_simps:
  "logging_enabled noRetryEnv" "resourceUrl noRetryEnv = Some ''/log''"
  "formatter noRetryEnv = exampleFormatter" "instanceId noRetryEnv = ''i1''"
  "threshold_seconds noRetryEnv = 5" "threshold_messages noRetryEnv = 3"
  "requestPolicy noRetryEnv = ''BATCH''" "origin noRetryEnv = ''http://localhost''"
  "retry_enabled noRetryEnv = False" "headers noRetryEnv = []"
  by (simp_all add: noRetryEnv_def exampleEnv_def headers_def)

lemma perMessageEnv_simps:
  "logging_enabled perMessageEnv" "resourceUrl perMessageEnv = Some ''/log''"
  "formatter perMessageEnv = exampleFormatter" "instanceId perMessageEnv = ''i1''"
  "threshold_seconds perMessageEnv = 5" "threshold_messages perMessageEnv = 10"
  "requestPolicy perMessageEnv = ''PER_MESSAGE''" "origin perMessageEnv = ''http://localhost''"
  "retry_enabled perMessageEnv = False" "headers perMessageEnv = []"
  by (simp_all add: perMessageEnv_def exampleEnv_def headers_def)

lemma exampleRun_exampleEnv:
  "exampleRun exampleEnv 2 = started\<lparr> lastMessageId := 2,
      buffer := [exampleMessage ''a'' 1, exampleMessage ''b'' 1] \<rparr>"
  by (rule exampleRun_2) (simp_all add: exampleEnv_def)

lemma exampleRun_noRetryEnv:
  "exampleRun noRetryEnv 2 = started\<lparr> lastMessageId := 2,
      buffer := [exampleMessage ''a'' 1, exampleMessage ''b'' 1] \<rparr>"
  by (rule exampleRun_2) (simp_all add: noRetryEnv_simps)

lemma exampleRun_perMessageEnv_2:
  "exampleRun perMessageEnv 2 = started\<lparr> lastMessageId := 2,
      buffer := [exampleMessage ''a'' 1, exampleMessage ''b'' 1] \<rparr>"
  by (rule exampleRun_2) (simp_all add: perMessageEnv_simps)

lemma exampleRun_perMessageEnv_3:
  "exampleRun perMessageEnv 3 = started\<lparr> lastMessageId := 3,
      buffer := [exampleMessage ''a'' 1, exampleMessage ''b'' 1, exampleMessage ''c'' 1] \<rparr>"
  by (rule exampleRun_3) (simp_all add: perMessageEnv_simps)

lemmas exampleRun_perMessageEnv = exampleRun_perMessageEnv_2 exampleRun_perMessageEnv_3

lemma digits: "string_of_nat 0 = ''0''" "string_of_nat 1 = ''1''" "string_of_nat 5 = ''5''"
  by code_simp+

lemma flushedBoom_eq:
  "flushedBoom =
     started\<lparr> lastMessageId := 1, nextSubmit := Some 10000,
       sent := [\<lparr> post_url = Some ''/log'', post_headers = [], post_body = examplePayload,
                 post_synchronously = False \<rparr>] \<rparr>"
  by (simp add: flushedBoom_def oneBoom_eq submit_nonempty)
     (simp add: started_eq initial_def exampleEnv_def ms_def chunks_def markRepeated_def
        exampleMessage_def examplePayload_def mkPost_def headers_def)

section \<open>The claims\<close>

subsection \<open>C1: the count threshold\<close>

text \<open>
  Claim C1, amended. Let the count threshold be \<open>t\<close> and let the buffer hold fewer than
  \<open>t\<close> entries. Then after every call of \<open>handleLogItem\<close> the buffer holds fewer than
  \<open>t\<close> entries again: a call that makes the length reach \<open>t\<close> submits the buffer at once.
  The same holds after any sequence of callbacks of the activity.
  Moreover, let \<open>t\<close> records be ingested that have fresh, increasing ids, that all format
  without an exception, and whose formatted records differ pairwise, and from the buffered
  entries, in line, file, level or text. Then no request is posted and every record is
  appended as long as the buffer holds fewer than \<open>t\<close> entries; the record that fills the
  buffer triggers the one flush: the requests posted in the whole run are the chunks of
  these \<open>t\<close> entries, the buffer is empty right after that call, and the deadline is set
  anew from its time. The records after it are buffered and nothing more is posted.

  A record whose formatting throws is not buffered, so \<open>t\<close> distinct records with such a
  record among them trigger no flush; the closed instance after the witness shows it.
\<close>

theorem C1_count_threshold_flush:
  fixes e :: "'v env"
  assumes t: "threshold_messages e = int t" and inv: "length (buffer s) < t"
  shows "length (buffer (snd (handleLogItem e now item s))) < t \<and>
     length (buffer (run e evs s)) < t \<and>
     (length xs = t \<longrightarrow>
      map (\<lambda>x. formatted e (snd x)) xs = map Some msgs \<longrightarrow>
      sorted_wrt (<) (lastMessageId s # map (\<lambda>x. item_id (snd x)) xs) \<longrightarrow>
      distinct (map recordKey msgs) \<longrightarrow>
      recordKey ` set msgs \<inter> recordKey ` set (buffer s) = {} \<longrightarrow>
      (\<forall>i \<le> t.
         (i < t - length (buffer s) \<longrightarrow>
            sent (ingest e (take i xs) s) = sent s \<and>
            buffer (ingest e (take i xs) s) = buffer s @ take i msgs) \<and>
         (t - length (buffer s) \<le> i \<longrightarrow>
            sent (ingest e (take i xs) s) =
              sent s @ map (mkPost e (logResourceUrl s) False)
                (chunks e (map markRepeated (buffer s @ take (t - length (buffer s)) msgs))) \<and>
            buffer (ingest e (take i xs) s) = drop (t - length (buffer s)) (take i msgs) \<and>
            nextSubmit (ingest e (take i xs) s) =
              Some (fst (xs ! (t - length (buffer s) - 1)) + ms (threshold_seconds e)))))"
proof (intro conjI impI allI)
  show "length (buffer (snd (handleLogItem e now item s))) < t"
    by (rule buffer_bound_handleLogItem [OF t inv])
next
  show "length (buffer (run e evs s)) < t"
    by (rule buffer_bound_run [OF t inv])
next
  fix i
  assume len: "length xs = t"
    and fmt: "map (\<lambda>x. formatted e (snd x)) xs = map Some msgs"
    and ids: "sorted_wrt (<) (lastMessageId s # map (\<lambda>x. item_id (snd x)) xs)"
    and dist: "distinct (map recordKey msgs)"
    and disj: "recordKey ` set msgs \<inter> recordKey ` set (buffer s) = {}"
    and i: "i \<le> t"
  have fmt': "map (\<lambda>x. formatted e (snd x)) (take i xs) = map Some (take i msgs)"
    using arg_cong [OF fmt, of "take i"] by (simp add: take_map)
  have "sorted_wrt (<) (take (Suc i) (lastMessageId s # map (\<lambda>x. item_id (snd x)) xs))"
    using ids by (rule sorted_wrt_take)
  then have ids': "sorted_wrt (<) (lastMessageId s # map (\<lambda>x. item_id (snd x)) (take i xs))"
    by (simp add: take_map)
  have dist': "distinct (map recordKey (take i msgs))"
    using dist by (simp add: take_map [symmetric] distinct_take)
  have disj': "recordKey ` set (take i msgs) \<inter> recordKey ` set (buffer s) = {}"
    using disj set_take_subset [of i msgs] by blast
  have leni: "length (take i xs) \<le> t" using len by simp
  note run = ingest_run [OF t inv leni fmt' ids' dist' disj']
  have lmsgs: "length msgs = t"
    using arg_cong [OF fmt, of length] len by simp
  {
    assume "i < t - length (buffer s)"
    then have "length (buffer s) + length (take i xs) < t"
      using len by simp
    note run [unfolded if_P [OF this]]
    then show "sent (ingest e (take i xs) s) = sent s"
      and "buffer (ingest e (take i xs) s) = buffer s @ take i msgs"
      by simp_all
  next
    assume ge: "t - length (buffer s) \<le> i"
    then have notlt: "\<not> length (buffer s) + length (take i xs) < t"
      using len i by simp
    have tk: "take (t - length (buffer s)) (take i msgs) = take (t - length (buffer s)) msgs"
      using ge by (simp add: min_def)
    have nth: "take i xs ! (t - length (buffer s) - 1) = xs ! (t - length (buffer s) - 1)"
      using ge inv by (intro nth_take) arith
    show "sent (ingest e (take i xs) s) =
              sent s @ map (mkPost e (logResourceUrl s) False)
                (chunks e (map markRepeated (buffer s @ take (t - length (buffer s)) msgs)))"
      and "buffer (ingest e (take i xs) s) = drop (t - length (buffer s)) (take i msgs)"
      and "nextSubmit (ingest e (take i xs) s) =
              Some (fst (xs ! (t - length (buffer s) - 1)) + ms (threshold_seconds e))"
      using run [unfolded if_not_P [OF notlt] tk nth] by simp_all
  }
qed

theorem C1_witness:
  "threshold_messages exampleEnv = int 3 \<and> length (buffer started) < 3 \<and>
   buffer (ingest exampleEnv (take 2 exampleStream) started) =
     [exampleMessage ''a'' 1, exampleMessage ''b'' 1] \<and>
   sent (ingest exampleEnv (take 2 exampleStream) started) = [] \<and>
   length (buffer (run exampleEnv
      [LogItem 1000 (exampleItem 1 ''a'' []), SubmitTimer 5000, BeforeUnload 6000] started)) < 3 \<and>
   buffer (ingest exampleEnv exampleStream started) = [] \<and>
   map post_body (sent (ingest exampleEnv exampleStream started)) =
     [Batch [exampleMessage ''a'' 1, exampleMessage ''b'' 1, exampleMessage ''c'' 1]
        ''http://localhost'']"
proof -
  let ?msgs = "[exampleMessage ''a'' 1, exampleMessage ''b'' 1, exampleMessage ''c'' 1]"
  have t: "threshold_messages exampleEnv = int 3" by (simp add: exampleEnv_def)
  have inv: "length (buffer started) < 3" by (simp add: started_eq initial_def)
  have len: "length exampleStream = 3" by (simp add: exampleStream_def)
  have fmt: "map (\<lambda>x. formatted exampleEnv (snd x)) exampleStream = map Some ?msgs"
    by (simp add: exampleStream_def example_formatted)
  have ids: "sorted_wrt (<) (lastMessageId started # map (\<lambda>x. item_id (snd x)) exampleStream)"
    by (simp add: exampleStream_def exampleItem_def started_eq initial_def)
  have dist: "distinct (map recordKey ?msgs)"
    by (simp add: recordKey_def exampleMessage_def)
  have disj: "recordKey ` set ?msgs \<inter> recordKey ` set (buffer started) = {}"
    by (simp add: started_eq initial_def)
  note main = C1_count_threshold_flush [OF t inv, THEN conjunct2, THEN conjunct2, rule_format,
      OF len fmt ids dist disj]
  note bounded = C1_count_threshold_flush [OF t inv, THEN conjunct2, THEN conjunct1,
      of "[LogItem 1000 (exampleItem 1 ''a'' []), SubmitTimer 5000, BeforeUnload 6000]"]
  from main [of 2] main [of 3] t inv bounded show ?thesis
    by (simp add: started_eq initial_def len chunks_def markRepeated_def exampleMessage_def
          exampleEnv_def mkPost_def)
qed

theorem C1_counterexample:
  "threshold_messages exampleEnv = 3 \<and> length brokenStream = 3 \<and>
   sent (ingest exampleEnv brokenStream (create exampleEnv 0 initial)) = [] \<and>
   buffer (ingest exampleEnv brokenStream (create exampleEnv 0 initial)) =
     [exampleMessage ''a'' 1, exampleMessage ''c'' 1]"
proof -
  have "sent (ingest exampleEnv brokenStream started) = [] \<and>
     buffer (ingest exampleEnv brokenStream started) =
       [exampleMessage ''a'' 1, exampleMessage ''c'' 1]"
    by (simp add: brokenStream_def example_simps)
  then show ?thesis
    by (simp add: started_def exampleEnv_simps brokenStream_def)
qed

subsection \<open>C2: bounded retry\<close>

text \<open>
  Claim C2, amended. With retry enabled, a failed asynchronous delivery puts the payload
  into the resend queue with \<open>retry.retries\<close> retries left and arms the retry timer. When
  the timer fires, the entries with no retries left are removed first; every remaining
  entry has its retries decremented and is posted again. A successful attempt sets the
  retries left of its entry to \<open>0\<close>, so that the next fire removes the entry without
  posting it. Whatever the order of timer fires and successes, the payload is posted at
  most \<open>retry.retries\<close> more times (beyond the retries left of other entries with the same
  payload). With \<open>retry.retries = 3\<close> and no success, the third fire posts the payload
  for the third time and leaves its entry in the queue with \<open>0\<close> retries left; the fourth
  fire removes it, posts nothing and does not arm the timer again.

  The entry is thus still in the queue after the third failed attempt, until the next
  fire; the closed instance after the theorem shows it.
\<close>

theorem C2_bounded_retry:
  fixes e :: "'v env"
  assumes "retry_enabled e"
  shows
    "resendBuffer (sendFailed e False p s) =
       resendBuffer s @ [\<lparr> entryId = allocated s, payload = p, retriesLeft = retry_retries e \<rparr>] \<and>
     retryTimeout (sendFailed e False p s) = Some (ms (retry_seconds e)) \<and>
     resendBuffer (resendMessages e sy s) =
       map (\<lambda>item. item\<lparr> retriesLeft := retriesLeft item - 1 \<rparr>)
         (filter (\<lambda>item. retriesLeft item > 0) (resendBuffer s)) \<and>
     sent (resendMessages e sy s) =
       sent s @ map (\<lambda>item. mkPost e (logResourceUrl s) sy (payload item))
                  (filter (\<lambda>item. retriesLeft item > 0) (resendBuffer s)) \<and>
     (\<forall>item \<in> set (resendBuffer (resendSucceeded k s)).
        entryId item = k \<longrightarrow> retriesLeft item = 0) \<and>
     (\<forall>item \<in> set (resendBuffer (resendMessages e sy (resendSucceeded k s))).
        entryId item \<noteq> k) \<and>
     (set evs \<subseteq> insert ResendTimer (range ResendSucceeded) \<longrightarrow>
        attempts p (sent (run e evs (sendFailed e False p s))) \<le>
          attempts p (sent s) + budget p (resendBuffer s) + nat (retry_retries e)) \<and>
     (retry_retries e = 3 \<longrightarrow> resendBuffer s = [] \<longrightarrow>
        resendBuffer (run e [ResendTimer, ResendTimer, ResendTimer] (sendFailed e False p s)) =
          [\<lparr> entryId = allocated s, payload = p, retriesLeft = 0 \<rparr>] \<and>
        sent (run e [ResendTimer, ResendTimer, ResendTimer] (sendFailed e False p s)) =
          sent s @ replicate 3 (mkPost e (logResourceUrl s) False p) \<and>
        resendBuffer (run e [ResendTimer, ResendTimer, ResendTimer, ResendTimer]
                        (sendFailed e False p s)) = [] \<and>
        sent (run e [ResendTimer, ResendTimer, ResendTimer, ResendTimer]
                (sendFailed e False p s)) =
          sent s @ replicate 3 (mkPost e (logResourceUrl s) False p) \<and>
        retryTimeout (run e [ResendTimer, ResendTimer, ResendTimer, ResendTimer]
                        (sendFailed e False p s)) = None)"
proof -
  note failed = sendFailed_eq [OF assms, of p s]
  have enq: "resendBuffer (sendFailed e False p s) =
       resendBuffer s @ [\<lparr> entryId = allocated s, payload = p, retriesLeft = retry_retries e \<rparr>]"
    and timer: "retryTimeout (sendFailed e False p s) = Some (ms (retry_seconds e))"
    by (simp_all add: failed)
  have tick: "resendBuffer (resendMessages e sy s) =
       map (\<lambda>item. item\<lparr> retriesLeft := retriesLeft item - 1 \<rparr>)
         (filter (\<lambda>item. retriesLeft item > 0) (resendBuffer s))"
    and posts: "sent (resendMessages e sy s) =
       sent s @ map (\<lambda>item. mkPost e (logResourceUrl s) sy (payload item))
                  (filter (\<lambda>item. retriesLeft item > 0) (resendBuffer s))"
    by (simp_all add: resendMessages_eq live_def decremented_def [abs_def])
  note marked = succeeded_marked [of k s]
  have bound: "attempts p (sent (run e evs (sendFailed e False p s))) \<le>
       attempts p (sent s) + budget p (resendBuffer s) + nat (retry_retries e)"
    if "set evs \<subseteq> insert ResendTimer (range ResendSucceeded)"
  proof -
    have "attempts p (sent (run e evs (sendFailed e False p s))) \<le>
        attempts p (sent (sendFailed e False p s)) +
        budget p (resendBuffer (sendFailed e False p s))"
      using retry_run_budget [OF that, of p e "sendFailed e False p s"] by simp
    then show ?thesis by (simp add: failed budget_snoc)
  qed
  have scenario: "resendBuffer (run e [ResendTimer, ResendTimer, ResendTimer] (sendFailed e False p s)) =
          [\<lparr> entryId = allocated s, payload = p, retriesLeft = 0 \<rparr>] \<and>
        sent (run e [ResendTimer, ResendTimer, ResendTimer] (sendFailed e False p s)) =
          sent s @ replicate 3 (mkPost e (logResourceUrl s) False p) \<and>
        resendBuffer (run e [ResendTimer, ResendTimer, ResendTimer, ResendTimer]
                        (sendFailed e False p s)) = [] \<and>
        sent (run e [ResendTimer, ResendTimer, ResendTimer, ResendTimer]
                (sendFailed e False p s)) =
          sent s @ replicate 3 (mkPost e (logResourceUrl s) False p) \<and>
        retryTimeout (run e [ResendTimer, ResendTimer, ResendTimer, ResendTimer]
                        (sendFailed e False p s)) = None"
    if "retry_retries e = 3" "resendBuffer s = []"
    using that
    by (simp add: run_def failed resendMessages_eq live_def decremented_def numeral_3_eq_3)
  from enq timer tick posts marked succeeded_evicted [of e sy k s] bound scenario
  show ?thesis by blast
qed

theorem C2_witness:
  "retry_enabled exampleEnv \<and> retry_retries exampleEnv = 3 \<and> resendBuffer flushedBoom = [] \<and>
   attempts examplePayload (sent flushedBoom) = 1 \<and>
   attempts examplePayload
     (sent (run exampleEnv
              [ResendTimer, ResendSucceeded 7, ResendTimer, ResendTimer, ResendTimer, ResendTimer]
              (sendFailed exampleEnv False examplePayload flushedBoom))) \<le> 1 + 3 \<and>
   resendBuffer (run exampleEnv [ResendTimer, ResendTimer, ResendTimer, ResendTimer]
                   (sendFailed exampleEnv False examplePayload flushedBoom)) = [] \<and>
   retryTimeout (run exampleEnv [ResendTimer, ResendTimer, ResendTimer, ResendTimer]
                   (sendFailed exampleEnv False examplePayload flushedBoom)) = None"
proof -
  have en: "retry_enabled exampleEnv" and three: "retry_retries exampleEnv = 3"
    by (simp_all add: exampleEnv_def)
  have empty: "resendBuffer flushedBoom = []"
    by (simp add: flushedBoom_eq started_eq initial_def)
  have before: "attempts examplePayload (sent flushedBoom) = 1"
      "budget examplePayload (resendBuffer flushedBoom) = 0"
    by (simp_all add: flushedBoom_eq started_eq initial_def attempts_def budget_def)
  have evs: "set [ResendTimer, ResendSucceeded 7, ResendTimer, ResendTimer, ResendTimer, ResendTimer]
      \<subseteq> insert ResendTimer (range ResendSucceeded)"
    by simp
  from C2_bounded_retry [OF en, of examplePayload flushedBoom _ _
      "[ResendTimer, ResendSucceeded 7, ResendTimer, ResendTimer, ResendTimer, ResendTimer]"]
    en three empty before evs
  show ?thesis by simp
qed

theorem C2_counterexample:
  "threeTicks =
     run exampleEnv [ResendTimer, ResendTimer, ResendTimer]
       (sendFailed exampleEnv False examplePayload
          (submit exampleEnv False 5000
             (snd (handleLogItem exampleEnv 4000 (exampleItem 1 ''boom'' [])
                     (create exampleEnv 0 initial))))) \<and>
   attempts examplePayload (sent threeTicks) = 1 + 3 \<and>
   examplePayload \<in> payload ` set (resendBuffer threeTicks)"
proof -
  have reached: "threeTicks =
     run exampleEnv [ResendTimer, ResendTimer, ResendTimer]
       (sendFailed exampleEnv False examplePayload
          (submit exampleEnv False 5000
             (snd (handleLogItem exampleEnv 4000 (exampleItem 1 ''boom'' [])
                     (create exampleEnv 0 initial)))))"
    by (simp only: threeTicks_def flushedBoom_def oneBoom_def started_def)
  have en: "retry_enabled exampleEnv" by (simp add: exampleEnv_def)
  have queue: "resendBuffer threeTicks =
      [\<lparr> entryId = 0, payload = examplePayload, retriesLeft = 0 \<rparr>]"
    by (simp add: threeTicks_def run_def sendFailed_eq [OF en] resendMessages_eq live_def
          decremented_def flushedBoom_eq started_eq initial_def exampleEnv_simps)
  have posts: "map post_body (sent threeTicks) =
      [examplePayload, examplePayload, examplePayload, examplePayload]"
    by (simp add: threeTicks_def run_def sendFailed_eq [OF en] resendMessages_eq live_def
          decremented_def flushedBoom_eq started_eq initial_def exampleEnv_simps mkPost_def)
  have "attempts examplePayload (sent threeTicks) =
      length (filter (\<lambda>p. p = examplePayload) (map post_body (sent threeTicks)))"
    by (simp add: attempts_def filter_map comp_def)
  then have "attempts examplePayload (sent threeTicks) = 1 + 3"
    by (simp add: posts)
  moreover have "examplePayload \<in> payload ` set (resendBuffer threeTicks)"
    by (simp add: queue)
  ultimately show ?thesis using reached by blast
qed

subsection \<open>C3: the submit deadline\<close>

text \<open>
  Claim C3, amended. The submit deadline is set by the flush that ends the window before
  (or by the start of the activity when no deadline is pending): a flush at time \<open>t0\<close>
  sets the deadline to \<open>t0 + 1000 * threshold.seconds\<close> and arms the submit timer with
  the delay \<open>1000 * threshold.seconds\<close>. Records that arrive while no count-triggered
  flush occurs, that is while no request is posted, leave the deadline and the timer
  untouched.

  A record does not set the deadline, and the flush may come earlier than
  \<open>threshold.seconds\<close> after the first record of the window; the closed instance after
  the theorem shows it.
\<close>

theorem C3_deadline_set_by_flush:
  "nextSubmit (submit e sy t0 s) = Some (t0 + ms (threshold_seconds e)) \<and>
   timeout (submit e sy t0 s) = Some (ms (threshold_seconds e)) \<and>
   (logging_enabled e \<longrightarrow> resourceUrl e = Some url \<longrightarrow> url \<noteq> [] \<longrightarrow>
    \<not> truthy (nextSubmit s) \<longrightarrow>
      nextSubmit (create e t0 s) = Some (t0 + ms (threshold_seconds e)) \<and>
      timeout (create e t0 s) = Some (ms (threshold_seconds e))) \<and>
   (sent (ingest e xs s) = sent s \<longrightarrow>
      nextSubmit (ingest e xs s) = nextSubmit s \<and> timeout (ingest e xs s) = timeout s)"
proof -
  have "nextSubmit (submit e sy t0 s) = Some (t0 + ms (threshold_seconds e)) \<and>
        timeout (submit e sy t0 s) = Some (ms (threshold_seconds e))"
    by (cases "buffer s = []") (simp_all add: submit_empty submit_nonempty)
  with create_fresh [of e url s t0] ingest_quiet [of e xs s] show ?thesis
    by blast
qed

theorem C3_witness:
  "logging_enabled exampleEnv \<and> resourceUrl exampleEnv = Some ''/log'' \<and>
   \<not> truthy (nextSubmit initial) \<and>
   nextSubmit (create exampleEnv 0 initial) = Some 5000 \<and>
   timeout (create exampleEnv 0 initial) = Some 5000 \<and>
   sent (ingest exampleEnv (take 2 exampleStream) started) = sent started \<and>
   nextSubmit (ingest exampleEnv (take 2 exampleStream) started) = Some 5000 \<and>
   timeout (ingest exampleEnv (take 2 exampleStream) started) = Some 5000"
proof -
  have cfg: "logging_enabled exampleEnv" "resourceUrl exampleEnv = Some ''/log''"
      "\<not> truthy (nextSubmit initial)"
    by (simp_all add: exampleEnv_def initial_def truthy_def)
  have quiet: "sent (ingest exampleEnv (take 2 exampleStream) started) = sent started"
    using exampleRun_exampleEnv by (simp add: exampleRun_def started_def)
  have secs: "ms (threshold_seconds exampleEnv) = 5000"
    by (simp add: exampleEnv_def ms_def)
  have url: "''/log'' \<noteq> []" by simp
  note fresh = C3_deadline_set_by_flush [of exampleEnv False 0 initial "''/log''" "[]",
      THEN conjunct2, THEN conjunct2, THEN conjunct1, rule_format, OF cfg(1) cfg(2) url cfg(3)]
  note later = C3_deadline_set_by_flush [of exampleEnv False 0 started "''/log''"
      "take 2 exampleStream", THEN conjunct2, THEN conjunct2, THEN conjunct2, rule_format,
      OF quiet]
  have "nextSubmit started = Some 5000" "timeout started = Some 5000"
    by (simp_all add: started_eq)
  with fresh later cfg quiet show ?thesis
    by (simp add: secs)
qed

theorem C3_counterexample:
  "started = create exampleEnv 0 initial \<and>
   nextSubmit (snd (handleLogItem exampleEnv 4000 (exampleItem 1 ''boom'' []) started)) =
     Some 5000 \<and>
   timeout (snd (handleLogItem exampleEnv 4000 (exampleItem 1 ''boom'' []) started)) =
     Some 5000 \<and>
   (5000 :: int) < 4000 + ms (threshold_seconds exampleEnv) \<and>
   map post_body
     (sent (submit exampleEnv False 5000
        (snd (handleLogItem exampleEnv 4000 (exampleItem 1 ''boom'' []) started)))) =
     [Batch [exampleMessage ''boom'' 1] ''http://localhost'']"
  by (simp add: example_handle1 submit_nonempty started_def [symmetric])
     (simp add: started_eq initial_def exampleEnv_def ms_def chunks_def markRepeated_def
        exampleMessage_def mkPost_def)

subsection \<open>C4: the duplicate check\<close>

text \<open>
  Claim C4. For a record with a fresh id that formats to the text and replacements
  \<open>tr\<close>: the record counts as a duplicate if and only if one of the last two entries of
  the buffer has the file, line, level and text of the record. If so, one of these two
  entries has its repetitions incremented by one and the buffer is otherwise unchanged,
  nothing is appended. If not, the record is appended as a new entry (and the buffer is
  submitted when that makes its length reach the count threshold). When a record with the
  same text, replacements, level, file and line is ingested right after, the buffer is at
  most one entry longer than before the two calls.
\<close>

theorem C4_duplicate_check:
  assumes "lastMessageId s < item_id item"
    and "formatMessage e (item_text item) (item_replacements item) = Inr tr"
  shows
    "(markDuplicate (messageItemOf e item tr) (buffer s) \<noteq> None \<longleftrightarrow>
        (\<exists>p \<in> set (drop (length (buffer s) - 2) (buffer s)).
            file' p = sourceInfo_file item \<and> line p = sourceInfo_line item \<and>
            level p = item_level item \<and> text' p = fst tr)) \<and>
     (markDuplicate (messageItemOf e item tr) (buffer s) \<noteq> None \<longrightarrow>
        (\<exists>i < length (buffer s). length (buffer s) - 2 \<le> i \<and>
            file' (buffer s ! i) = sourceInfo_file item \<and>
            line (buffer s ! i) = sourceInfo_line item \<and>
            level (buffer s ! i) = item_level item \<and> text' (buffer s ! i) = fst tr \<and>
            buffer (snd (handleLogItem e now item s)) =
              (buffer s)[i := (buffer s ! i)
                 \<lparr> repetitions := repetitions (buffer s ! i) + 1 \<rparr>])) \<and>
     (markDuplicate (messageItemOf e item tr) (buffer s) = None \<longrightarrow>
        (if int (length (buffer s)) + 1 < threshold_messages e
         then buffer (snd (handleLogItem e now item s)) =
                buffer s @ [messageItemOf e item tr]
         else buffer (snd (handleLogItem e now item s)) = [] \<and>
              map post_body (drop (length (sent s)) (sent (snd (handleLogItem e now item s)))) =
                chunks e (map markRepeated (buffer s @ [messageItemOf e item tr])))) \<and>
     (\<forall>item2 now2.
        item_text item2 = item_text item \<and> item_replacements item2 = item_replacements item \<and>
        item_level item2 = item_level item \<and> sourceInfo_file item2 = sourceInfo_file item \<and>
        sourceInfo_line item2 = sourceInfo_line item \<longrightarrow>
        length (buffer (snd (handleLogItem e now2 item2 (snd (handleLogItem e now item s)))))
          \<le> length (buffer s) + 1)"
proof (intro conjI impI allI)
  show "markDuplicate (messageItemOf e item tr) (buffer s) \<noteq> None \<longleftrightarrow>
        (\<exists>p \<in> set (drop (length (buffer s) - 2) (buffer s)).
            file' p = sourceInfo_file item \<and> line p = sourceInfo_line item \<and>
            level p = item_level item \<and> text' p = fst tr)"
    unfolding markDuplicate_iff sameRecord_messageItemOf ..
next
  assume "markDuplicate (messageItemOf e item tr) (buffer s) \<noteq> None"
  then obtain buf where buf: "markDuplicate (messageItemOf e item tr) (buffer s) = Some buf"
    by auto
  from markDuplicate_Some [OF buf] obtain i where
    i: "i < length (buffer s)" "length (buffer s) - 2 \<le> i"
       "sameRecord (messageItemOf e item tr) (buffer s ! i)"
       "buf = (buffer s)[i := bump (buffer s ! i)]" by blast
  from handleLogItem_merged [OF assms buf] i
  show "\<exists>i < length (buffer s). length (buffer s) - 2 \<le> i \<and>
            file' (buffer s ! i) = sourceInfo_file item \<and>
            line (buffer s ! i) = sourceInfo_line item \<and>
            level (buffer s ! i) = item_level item \<and> text' (buffer s ! i) = fst tr \<and>
            buffer (snd (handleLogItem e now item s)) =
              (buffer s)[i := (buffer s ! i)
                 \<lparr> repetitions := repetitions (buffer s ! i) + 1 \<rparr>]"
    by (intro exI [of _ i]) (simp add: sameRecord_messageItemOf bump_def)
next
  assume none: "markDuplicate (messageItemOf e item tr) (buffer s) = None"
  show "if int (length (buffer s)) + 1 < threshold_messages e
         then buffer (snd (handleLogItem e now item s)) =
                buffer s @ [messageItemOf e item tr]
         else buffer (snd (handleLogItem e now item s)) = [] \<and>
              map post_body (drop (length (sent s)) (sent (snd (handleLogItem e now item s)))) =
                chunks e (map markRepeated (buffer s @ [messageItemOf e item tr]))"
  proof (cases "int (length (buffer s)) + 1 < threshold_messages e")
    case True
    with handleLogItem_appended [OF assms none True] show ?thesis by simp
  next
    case False
    then have "threshold_messages e \<le> int (length (buffer s)) + 1" by simp
    from handleLogItem_flushed_eq [OF assms none this] False show ?thesis
      by (simp add: mkPost_def comp_def)
  qed
next
  fix item2 :: "'a logItem" and now2
  assume "item_text item2 = item_text item \<and> item_replacements item2 = item_replacements item \<and>
        item_level item2 = item_level item \<and> sourceInfo_file item2 = sourceInfo_file item \<and>
        sourceInfo_line item2 = sourceInfo_line item"
  then show "length (buffer (snd (handleLogItem e now2 item2 (snd (handleLogItem e now item s)))))
          \<le> length (buffer s) + 1"
    by (intro consecutive_identical) simp_all
qed

theorem C4_witness:
  "lastMessageId oneBoom < item_id (exampleItem 2 ''boom'' []) \<and>
   formatMessage exampleEnv ''boom'' [] = Inr (''boom'', []) \<and>
   buffer oneBoom = [exampleMessage ''boom'' 1] \<and>
   buffer (snd (handleLogItem exampleEnv 4001 (exampleItem 2 ''boom'' []) oneBoom)) =
     [exampleMessage ''boom'' 2] \<and>
   length (buffer (snd (handleLogItem exampleEnv 4002 (exampleItem 3 ''boom'' [])
             (snd (handleLogItem exampleEnv 4001 (exampleItem 2 ''boom'' []) oneBoom)))))
     \<le> length (buffer oneBoom) + 1"
proof -
  let ?item = "exampleItem 2 ''boom'' [] :: string logItem"
  have fresh: "lastMessageId oneBoom < item_id ?item"
    by (simp add: oneBoom_eq started_eq initial_def exampleItem_def)
  have fmt: "formatMessage exampleEnv (item_text ?item) (item_replacements ?item) =
      Inr (''boom'', [])"
    by (simp add: formatMessage_def exampleEnv_def exampleFormatter_def exampleItem_def)
  have buf: "buffer oneBoom = [exampleMessage ''boom'' 1]"
    by (simp add: oneBoom_eq)
  have same: "file' (exampleMessage ''boom'' 1) = sourceInfo_file ?item \<and>
      line (exampleMessage ''boom'' 1) = sourceInfo_line ?item \<and>
      level (exampleMessage ''boom'' 1) = item_level ?item \<and>
      text' (exampleMessage ''boom'' 1) = ''boom''"
    by (simp add: exampleMessage_def exampleItem_def)
  note claim = C4_duplicate_check [OF fresh fmt, of 4001]
  from claim [THEN conjunct1] same
  have dup: "markDuplicate (messageItemOf exampleEnv ?item (''boom'', [])) (buffer oneBoom) \<noteq> None"
    by (simp add: buf)
  from claim [THEN conjunct2, THEN conjunct1, rule_format, OF dup]
  have merged: "buffer (snd (handleLogItem exampleEnv 4001 ?item oneBoom)) =
      [exampleMessage ''boom'' 2]"
    by (auto simp add: buf exampleMessage_def)
  from claim [THEN conjunct2, THEN conjunct2, THEN conjunct2, rule_format,
      of "exampleItem 3 ''boom'' []" 4002]
  have "length (buffer (snd (handleLogItem exampleEnv 4002 (exampleItem 3 ''boom'' [])
             (snd (handleLogItem exampleEnv 4001 ?item oneBoom)))))
     \<le> length (buffer oneBoom) + 1"
    by (simp add: exampleItem_def)
  with fresh fmt buf merged show ?thesis
    by (simp add: exampleItem_def)
qed

subsection \<open>C5: records with an old id\<close>

text \<open>
  Claim C5. A record whose id is at most the last seen id is ignored: the call returns
  and the state, with buffer, deadline and timers, is unchanged. After the call for a
  record with a greater id, the last seen id is the id of that record. So a stream that
  is delivered again, in whole or in part, changes nothing.
\<close>

theorem C5_stale_record_ignored:
  "(item_id item \<le> lastMessageId s \<longrightarrow> handleLogItem e now item s = (None, s)) \<and>
   (lastMessageId s < item_id item \<longrightarrow>
      lastMessageId (snd (handleLogItem e now item s)) = item_id item) \<and>
   ((\<forall>y \<in> set ys. \<exists>x \<in> set xs. item_id (snd y) \<le> item_id (snd x)) \<longrightarrow>
      ingest e ys (ingest e xs s) = ingest e xs s)"
proof (intro conjI impI)
  assume "item_id item \<le> lastMessageId s"
  then show "handleLogItem e now item s = (None, s)"
    by (rule handleLogItem_stale)
next
  assume "lastMessageId s < item_id item"
  then show "lastMessageId (snd (handleLogItem e now item s)) = item_id item"
    by (simp add: lastMessageId_handleLogItem)
next
  assume replay: "\<forall>y \<in> set ys. \<exists>x \<in> set xs. item_id (snd y) \<le> item_id (snd x)"
  have "\<forall>y \<in> set ys. item_id (snd y) \<le> lastMessageId (ingest e xs s)"
  proof
    fix y assume "y \<in> set ys"
    with replay obtain x where x: "x \<in> set xs" "item_id (snd y) \<le> item_id (snd x)" by blast
    from lastMessageId_ingest_member [OF x(1), of e s] x(2)
    show "item_id (snd y) \<le> lastMessageId (ingest e xs s)" by simp
  qed
  then show "ingest e ys (ingest e xs s) = ingest e xs s"
    by (rule ingest_stale)
qed

theorem C5_witness:
  "item_id (exampleItem 1 ''late'' []) \<le> lastMessageId oneBoom \<and>
   handleLogItem exampleEnv 4001 (exampleItem 1 ''late'' []) oneBoom = (None, oneBoom) \<and>
   lastMessageId started < item_id (exampleItem 1 ''boom'' []) \<and>
   lastMessageId oneBoom = 1 \<and>
   ingest exampleEnv exampleStream (ingest exampleEnv exampleStream started) =
     ingest exampleEnv exampleStream started"
proof -
  have stale: "item_id (exampleItem 1 ''late'' []) \<le> lastMessageId oneBoom"
    by (simp add: oneBoom_eq exampleItem_def)
  have fresh: "lastMessageId started < item_id (exampleItem 1 ''boom'' [])"
    by (simp add: started_eq initial_def exampleItem_def)
  have replay: "\<forall>y \<in> set exampleStream. \<exists>x \<in> set exampleStream.
      item_id (snd y) \<le> item_id (snd x)"
    by blast
  from C5_stale_record_ignored [of "exampleItem 1 ''late'' []" oneBoom exampleEnv 4001 "[]" "[]"]
    stale
  have "handleLogItem exampleEnv 4001 (exampleItem 1 ''late'' []) oneBoom = (None, oneBoom)"
    by blast
  moreover
  from C5_stale_record_ignored [of "exampleItem 1 ''boom'' []" started exampleEnv 4000
      exampleStream exampleStream] fresh replay
  have "lastMessageId (snd (handleLogItem exampleEnv 4000 (exampleItem 1 ''boom'' []) started)) =
      item_id (exampleItem 1 ''boom'' [])"
    and "ingest exampleEnv exampleStream (ingest exampleEnv exampleStream started) =
      ingest exampleEnv exampleStream started"
    by blast+
  ultimately show ?thesis
    using stale fresh by (simp add: oneBoom_def exampleItem_def)
qed

subsection \<open>C6: before unload and end of lifecycle\<close>

text \<open>
  Claim C6, amended. On \<open>beforeunload\<close> the activity submits the buffer synchronously
  and cancels the submit timer and the retry timer; it stays attached to the log channel.
  On \<open>endLifecycleRequest\<close> it detaches from the log channel and from \<open>beforeunload\<close>
  and cancels both timers; it does not submit the buffer. With two buffered records and
  the request policy \<open>BATCH\<close>, \<open>beforeunload\<close> issues exactly one synchronous request
  with these two records. The failure callback of a synchronous request adds nothing to
  the resend queue.

  No signal does all three of flush, cancel and detach, and under another request policy
  two buffered records go out as two requests; the closed instance after the theorem
  shows both.
\<close>

theorem C6_shutdown_signals:
  "timeout (handleBeforeUnload e now s) = None \<and>
   retryTimeout (handleBeforeUnload e now s) = None \<and>
   buffer (handleBeforeUnload e now s) = [] \<and>
   sent (handleBeforeUnload e now s) =
     sent s @ (if buffer s = [] then []
               else map (mkPost e (logResourceUrl s) True)
                      (chunks e (map markRepeated (buffer s)))) \<and>
   logChannel (handleBeforeUnload e now s) = logChannel s \<and>
   resendBuffer (handleBeforeUnload e now s) = resendBuffer s \<and>
   endLifecycleRequest s =
     s\<lparr> logChannel := False, unloadListener := False, timeout := None,
        retryTimeout := None \<rparr> \<and>
   (requestPolicy e = ''BATCH'' \<longrightarrow> buffer s = [m1, m2] \<longrightarrow>
      sent (handleBeforeUnload e now s) =
        sent s @ [mkPost e (logResourceUrl s) True
                    (Batch [markRepeated m1, markRepeated m2] (origin e))]) \<and>
   (\<forall>p s2. sendFailed e True p s2 = s2)"
  by (simp add: handleBeforeUnload_eq endLifecycleRequest_def chunks_def
        sendFailed_synchronously)

theorem C6_witness:
  "requestPolicy noRetryEnv = ''BATCH'' \<and>
   buffer (exampleRun noRetryEnv 2) = [exampleMessage ''a'' 1, exampleMessage ''b'' 1] \<and>
   sent (handleBeforeUnload noRetryEnv 4500 (exampleRun noRetryEnv 2)) =
     [\<lparr> post_url = Some ''/log'', post_headers = [],
        post_body = Batch [exampleMessage ''a'' 1, exampleMessage ''b'' 1] ''http://localhost'',
        post_synchronously = True \<rparr>] \<and>
   timeout (handleBeforeUnload noRetryEnv 4500 (exampleRun noRetryEnv 2)) = None \<and>
   retryTimeout (handleBeforeUnload noRetryEnv 4500 (exampleRun noRetryEnv 2)) = None \<and>
   resendBuffer (handleBeforeUnload noRetryEnv 4500 (exampleRun noRetryEnv 2)) = []"
proof -
  let ?s = "exampleRun noRetryEnv 2"
  have policy: "requestPolicy noRetryEnv = ''BATCH''"
    by (simp add: noRetryEnv_simps)
  have buf: "buffer ?s = [exampleMessage ''a'' 1, exampleMessage ''b'' 1]"
    by (simp add: exampleRun_noRetryEnv)
  note claim = C6_shutdown_signals [of noRetryEnv 4500 ?s "exampleMessage ''a'' 1"
      "exampleMessage ''b'' 1"]
  from claim have timers: "timeout (handleBeforeUnload noRetryEnv 4500 ?s) = None"
      "retryTimeout (handleBeforeUnload noRetryEnv 4500 ?s) = None"
    and queue: "resendBuffer (handleBeforeUnload noRetryEnv 4500 ?s) = resendBuffer ?s"
    by blast+
  from claim policy buf
  have posts: "sent (handleBeforeUnload noRetryEnv 4500 ?s) =
      sent ?s @ [mkPost noRetryEnv (logResourceUrl ?s) True
        (Batch [markRepeated (exampleMessage ''a'' 1), markRepeated (exampleMessage ''b'' 1)]
           (origin noRetryEnv))]"
    by blast
  have "sent (handleBeforeUnload noRetryEnv 4500 ?s) =
     [\<lparr> post_url = Some ''/log'', post_headers = [],
        post_body = Batch [exampleMessage ''a'' 1, exampleMessage ''b'' 1] ''http://localhost'',
        post_synchronously = True \<rparr>]"
    unfolding posts
    by (simp add: exampleRun_noRetryEnv started_eq initial_def mkPost_def noRetryEnv_simps
          markRepeated_def exampleMessage_def)
  moreover have "resendBuffer ?s = []"
    by (simp add: exampleRun_noRetryEnv started_eq initial_def)
  ultimately show ?thesis
    using policy buf timers queue by simp
qed

theorem C6_counterexample:
  "exampleRun perMessageEnv 2 =
     ingest perMessageEnv (take 2 exampleStream) (create perMessageEnv 0 initial) \<and>
   retry_enabled perMessageEnv = False \<and>
   length (buffer (exampleRun perMessageEnv 2)) = 2 \<and>
   logChannel (exampleRun perMessageEnv 2) \<and>
   logChannel (handleBeforeUnload perMessageEnv 4500 (exampleRun perMessageEnv 2)) \<and>
   length (sent (handleBeforeUnload perMessageEnv 4500 (exampleRun perMessageEnv 2))) = 2 \<and>
   sent (endLifecycleRequest (exampleRun perMessageEnv 2)) = [] \<and>
   length (buffer (endLifecycleRequest (exampleRun perMessageEnv 2))) = 2"
proof -
  have reached: "exampleRun perMessageEnv 2 =
      ingest perMessageEnv (take 2 exampleStream) (create perMessageEnv 0 initial)"
    by (simp only: exampleRun_def)
  have "retry_enabled perMessageEnv = False \<and>
     length (buffer (exampleRun perMessageEnv 2)) = 2 \<and>
     logChannel (exampleRun perMessageEnv 2) \<and>
     logChannel (handleBeforeUnload perMessageEnv 4500 (exampleRun perMessageEnv 2)) \<and>
     length (sent (handleBeforeUnload perMessageEnv 4500 (exampleRun perMessageEnv 2))) = 2 \<and>
     sent (endLifecycleRequest (exampleRun perMessageEnv 2)) = [] \<and>
     length (buffer (endLifecycleRequest (exampleRun perMessageEnv 2))) = 2"
    by (simp add: exampleRun_perMessageEnv handleBeforeUnload_eq endLifecycleRequest_def
          started_eq initial_def chunks_def perMessageEnv_simps)
  with reached show ?thesis by (rule conjI)
qed

subsection \<open>C7: a formatting failure\<close>

text \<open>
  Claim C7, amended. When formatting a record with a fresh id throws, \<open>handleLogItem\<close>
  does not catch the exception: it leaves the call. The record is not buffered; the state
  differs from the one before only in the last seen id, which is the id of the record.
  The calls for later records, with greater ids, behave as if the failed record had never
  been ingested.

  The failure is not caught and the record is dropped; the closed instance after the
  theorem shows it.
\<close>

theorem C7_format_failure_propagates:
  assumes "lastMessageId s < item_id item"
    and "formatMessage e (item_text item) (item_replacements item) = Inl err"
  shows "handleLogItem e now item s = (Some err, s\<lparr> lastMessageId := item_id item \<rparr>) \<and>
     (\<forall>item2 now2. item_id item < item_id item2 \<longrightarrow>
        handleLogItem e now2 item2 (snd (handleLogItem e now item s)) =
        handleLogItem e now2 item2 s)"
proof -
  have first: "handleLogItem e now item s = (Some err, s\<lparr> lastMessageId := item_id item \<rparr>)"
    by (rule handleLogItem_throws [OF assms])
  have "handleLogItem e now2 item2 (s\<lparr> lastMessageId := item_id item \<rparr>) =
        handleLogItem e now2 item2 s"
    if "item_id item < item_id item2" for item2 now2
    using that assms(1) by (simp add: handleLogItem_def)
  with first show ?thesis by simp
qed

theorem C7_witness:
  "lastMessageId started < item_id (exampleItem 1 ''['' []) \<and>
   formatMessage exampleEnv ''['' [] = Inl unterminated \<and>
   handleLogItem exampleEnv 4000 (exampleItem 1 ''['' []) started =
     (Some unterminated, started\<lparr> lastMessageId := 1 \<rparr>) \<and>
   handleLogItem exampleEnv 4001 (exampleItem 2 ''boom'' [])
       (snd (handleLogItem exampleEnv 4000 (exampleItem 1 ''['' []) started)) =
     handleLogItem exampleEnv 4001 (exampleItem 2 ''boom'' []) started"
proof -
  let ?item = "exampleItem 1 ''['' [] :: string logItem"
  have fresh: "lastMessageId started < item_id ?item"
    by (simp add: started_eq initial_def exampleItem_def)
  have fails: "formatMessage exampleEnv (item_text ?item) (item_replacements ?item) =
      Inl unterminated"
    by (simp add: formatMessage_def exampleEnv_def exampleFormatter_def exampleItem_def)
  have later: "item_id ?item < item_id (exampleItem 2 ''boom'' [])"
    by (simp add: exampleItem_def)
  note claim = C7_format_failure_propagates [OF fresh fails, of 4000]
  from claim have thrown: "handleLogItem exampleEnv 4000 ?item started =
      (Some unterminated, started\<lparr> lastMessageId := 1 \<rparr>)"
    by (simp add: exampleItem_def)
  note unaffected = claim [THEN conjunct2, rule_format, OF later, of 4001]
  have "formatMessage exampleEnv ''['' [] = Inl unterminated"
    using fails by (simp add: exampleItem_def)
  with fresh thrown unaffected show ?thesis by blast
qed

theorem C7_counterexample:
  "fst (handleLogItem exampleEnv 4000 (exampleItem 1 ''['' []) started) =
     Some unterminated \<and>
   buffer (snd (handleLogItem exampleEnv 4000 (exampleItem 1 ''['' []) started)) = [] \<and>
   sent (snd (handleLogItem exampleEnv 4000 (exampleItem 1 ''['' []) started)) = []"
  by (simp add: handleLogItem_def formatMessage_def exampleEnv_def exampleFormatter_def
        exampleItem_def started_eq initial_def)

subsection \<open>C8: the requests of a flush\<close>

text \<open>
  Claim C8. Submitting a non-empty buffer posts the chunks of the buffer, after every
  entry with more than one repetition got \<open>(repeated Nx)\<close> appended to its text, \<open>N\<close>
  its repetitions; the other entries are unchanged. Under the request policy \<open>BATCH\<close>
  there is exactly one chunk, with all entries and the source; under any other policy
  there is one chunk per entry, with the fields of the entry and the source. The buffer
  is empty afterwards.
\<close>

theorem C8_flush_requests:
  assumes "buffer s \<noteq> []"
  shows "sent (submit e sy now s) =
       sent s @ map (mkPost e (logResourceUrl s) sy) (chunks e (map markRepeated (buffer s))) \<and>
     buffer (submit e sy now s) = [] \<and>
     (requestPolicy e = ''BATCH'' \<longrightarrow>
        chunks e (map markRepeated (buffer s)) = [Batch (map markRepeated (buffer s)) (origin e)]) \<and>
     (requestPolicy e \<noteq> ''BATCH'' \<longrightarrow>
        length (chunks e (map markRepeated (buffer s))) = length (buffer s) \<and>
        (\<forall>i < length (buffer s).
           chunks e (map markRepeated (buffer s)) ! i =
             Single (markRepeated (buffer s ! i)) (origin e))) \<and>
     (\<forall>m \<in> set (buffer s).
        (repetitions m > 1 \<longrightarrow>
           markRepeated m =
             m\<lparr> text' := text' m @ '' (repeated '' @ string_of_nat (repetitions m) @ ''x)'' \<rparr>) \<and>
        (repetitions m \<le> 1 \<longrightarrow> markRepeated m = m))"
  using assms by (simp add: submit_nonempty chunks_def markRepeated_def)

theorem C8_witness:
  "buffer fiveBooms \<noteq> [] \<and> buffer fiveBooms = [exampleMessage ''boom'' 5] \<and>
   map post_body (sent (submit exampleEnv False 5000 fiveBooms)) =
     [Batch [exampleMessage ''boom (repeated 5x)'' 5] ''http://localhost''] \<and>
   buffer (submit exampleEnv False 5000 fiveBooms) = [] \<and>
   buffer (exampleRun perMessageEnv 3) =
     [exampleMessage ''a'' 1, exampleMessage ''b'' 1, exampleMessage ''c'' 1] \<and>
   map post_body (sent (submit perMessageEnv False 5000 (exampleRun perMessageEnv 3))) =
     [Single (exampleMessage ''a'' 1) ''http://localhost'',
      Single (exampleMessage ''b'' 1) ''http://localhost'',
      Single (exampleMessage ''c'' 1) ''http://localhost'']"
proof -
  have five: "buffer fiveBooms \<noteq> []" and three: "buffer (exampleRun perMessageEnv 3) \<noteq> []"
    by (simp_all add: fiveBooms_eq exampleRun_perMessageEnv)
  note batch = C8_flush_requests [OF five, of exampleEnv False 5000, THEN conjunct1]
  note single = C8_flush_requests [OF three, of perMessageEnv False 5000, THEN conjunct1]
  have "map post_body (sent (submit exampleEnv False 5000 fiveBooms)) =
     [Batch [exampleMessage ''boom (repeated 5x)'' 5] ''http://localhost'']"
    unfolding batch
    by (simp add: fiveBooms_eq started_eq initial_def chunks_def markRepeated_def
          exampleMessage_def exampleEnv_def mkPost_def comp_def digits)
  moreover have "map post_body (sent (submit perMessageEnv False 5000 (exampleRun perMessageEnv 3))) =
     [Single (exampleMessage ''a'' 1) ''http://localhost'',
      Single (exampleMessage ''b'' 1) ''http://localhost'',
      Single (exampleMessage ''c'' 1) ''http://localhost'']"
    unfolding single
    by (simp add: exampleRun_perMessageEnv started_eq initial_def chunks_def markRepeated_def
          exampleMessage_def perMessageEnv_simps mkPost_def comp_def)
  ultimately show ?thesis
    using five by (simp add: fiveBooms_eq exampleRun_perMessageEnv)
qed

subsection \<open>C9: anonymized replacements\<close>

text \<open>
  Claim C9, amended. Whatever the library does with a template and its replacements: every
  value that it hands to the anonymization mapper is appended to the side list, which is
  returned as the replacements of the record; the mapper returns for it the reference
  \<open>[k:anonymize]\<close>, \<open>k\<close> the index of the value in that list, indices in the order of the
  calls; so the result is that of \<open>numbered\<close>, and the calls of the mapper are the
  entries of the side list, each with the reference of its index. The reference does not
  depend on the
  value: formatting with other values at the calls of the mapper gives the same text (or
  the same exception), and the side list of the other values. When the library writes
  the result of every call of the mapper into the text, the text is the output with the
  \<open>k\<close>-th anonymized value, in order of occurrence, replaced by \<open>[k:anonymize]\<close>, and the
  value at a placeholder is the entry of the side list at the index of the placeholder.

  When the library hands the result of a call to the mapper again, the text holds the
  reference of the last call only and the side list holds the first reference as well; the
  closed instance after the witness shows it.
\<close>

theorem C9_anonymized_values:
  fixes e :: "'v env"
  shows "formatMessage e t r = numbered (formatter e t r) 0 \<and>
     (\<forall>out side. formatMessage e t r = Inr (out, side) \<longrightarrow>
        calls (formatter e t r) [] = zip side (map placeholder [0..<length side])) \<and>
     (\<forall>f :: 'v \<Rightarrow> 'v.
        runFormat (map_formatting f (formatter e t r)) [] =
          onReplacements (map f) (formatMessage e t r)) \<and>
     (\<forall>ps. formatter e t r = splice ps [] \<longrightarrow>
        formatMessage e t r = Inr (placeholderText 0 ps, anonymized ps) \<and>
        (\<forall>pre v post. ps = pre @ Anonymize v # post \<longrightarrow>
           anonymized ps ! length (anonymized pre) = v \<and>
           placeholderText 0 ps =
             placeholderText 0 pre @ placeholder (length (anonymized pre)) @
             placeholderText (Suc (length (anonymized pre))) post))"
proof -
  have general: "formatMessage e t r = numbered (formatter e t r) 0"
    by (simp add: formatMessage_def runFormat_numbered onReplacements_Nil)
  have indexed: "calls (formatter e t r) [] = zip side (map placeholder [0..<length side])"
    if "formatMessage e t r = Inr (out, side)" for out side
    using calls_numbered [of "formatter e t r" "[]" out side] that
    by (auto simp add: formatMessage_def)
  have indep: "runFormat (map_formatting f (formatter e t r)) [] =
      onReplacements (map f) (formatMessage e t r)" for f :: "'v \<Rightarrow> 'v"
    using runFormat_map [of f "formatter e t r" "[]"] by (simp add: formatMessage_def)
  have spliced: "formatMessage e t r = Inr (placeholderText 0 ps, anonymized ps)"
    if "formatter e t r = splice ps []" for ps
    using that by (simp add: formatMessage_def runFormat_splice)
  have idx: "anonymized ps ! length (anonymized pre) = v \<and>
        placeholderText 0 ps =
          placeholderText 0 pre @ placeholder (length (anonymized pre)) @
          placeholderText (Suc (length (anonymized pre))) post"
    if "ps = pre @ Anonymize v # post" for ps :: "'v piece list" and pre v post
    by (simp add: that anonymized_append placeholderText_append)
  from general indexed indep spliced idx show ?thesis by blast
qed

theorem C9_witness:
  "formatter exampleEnv ''[1:anonymize] then [0:anonymize]'' [''alice'', ''bob''] =
     splice [Anonymize ''bob'', Lit '' then '', Anonymize ''alice''] [] \<and>
   formatMessage exampleEnv ''[1:anonymize] then [0:anonymize]'' [''alice'', ''bob''] =
     Inr (''[0:anonymize] then [1:anonymize]'', [''bob'', ''alice'']) \<and>
   calls (formatter exampleEnv ''[1:anonymize] then [0:anonymize]'' [''alice'', ''bob'']) [] =
     [(''bob'', ''[0:anonymize]''), (''alice'', ''[1:anonymize]'')]"
proof -
  let ?t = "''[1:anonymize] then [0:anonymize]''"
  have run: "formatter exampleEnv ?t [''alice'', ''bob''] =
      splice [Anonymize ''bob'', Lit '' then '', Anonymize ''alice''] []"
    by (simp add: exampleEnv_def exampleFormatter_def)
  have one: "string_of_nat (Suc 0) = ''1''"
    using digits(2) by simp
  note claim = C9_anonymized_values [of exampleEnv ?t "[''alice'', ''bob'']"]
  from claim [THEN conjunct2, THEN conjunct2, THEN conjunct2, rule_format, OF run, THEN conjunct1]
  have rendered: "formatMessage exampleEnv ?t [''alice'', ''bob''] =
      Inr (''[0:anonymize] then [1:anonymize]'', [''bob'', ''alice''])"
    by (simp add: placeholder_def digits one)
  from claim [THEN conjunct2, THEN conjunct1, rule_format, OF rendered]
  have "calls (formatter exampleEnv ?t [''alice'', ''bob'']) [] =
      [(''bob'', ''[0:anonymize]''), (''alice'', ''[1:anonymize]'')]"
    by (simp add: placeholder_def digits one upt_rec)
  with run rendered show ?thesis by blast
qed

theorem C9_counterexample:
  "formatMessage exampleEnv ''[0:anonymize:anonymize]'' [''alice''] =
     Inr (''[1:anonymize]'', [''alice'', ''[0:anonymize]''])"
proof -
  have one: "string_of_nat (Suc 0) = ''1''"
    using digits(2) by simp
  show ?thesis
    by (simp add: formatMessage_def exampleEnv_def exampleFormatter_def anonymize_def
          digits one)
qed

subsection \<open>C10: what a merge changes\<close>

text \<open>
  Claim C10. When a record with a fresh id is marked as a duplicate, the call returns
  with a state that differs from the one before in the last seen id and in the
  repetitions of one buffered entry, incremented by one. The other fields of that entry
  (time, tags, replacements) and the other entries are unchanged, and so are the requests
  sent, the deadline and the timers: a merge submits nothing, whatever the length of the
  buffer and the count threshold.
\<close>

theorem C10_merge_changes_repetitions_only:
  assumes "lastMessageId s < item_id item"
    and "formatMessage e (item_text item) (item_replacements item) = Inr tr"
    and "markDuplicate (messageItemOf e item tr) (buffer s) = Some buf"
  shows "\<exists>i < length (buffer s).
           handleLogItem e now item s =
             (None, s\<lparr> lastMessageId := item_id item,
                        buffer := (buffer s)[i := (buffer s ! i)
                           \<lparr> repetitions := repetitions (buffer s ! i) + 1 \<rparr>] \<rparr>)"
proof -
  from markDuplicate_Some [OF assms(3)] obtain i where
    i: "i < length (buffer s)" "buf = (buffer s)[i := bump (buffer s ! i)]" by blast
  from handleLogItem_merged [OF assms] i show ?thesis
    by (auto simp add: bump_def)
qed

theorem C10_witness:
  "lastMessageId oneBoom < item_id (exampleItem 2 ''boom'' []) \<and>
   markDuplicate (messageItemOf exampleEnv (exampleItem 2 ''boom'' []) (''boom'', []))
     (buffer oneBoom) = Some [exampleMessage ''boom'' 2] \<and>
   handleLogItem exampleEnv 4001 (exampleItem 2 ''boom'' []) oneBoom =
     (None, oneBoom\<lparr> lastMessageId := 2, buffer := [exampleMessage ''boom'' 2] \<rparr>)"
proof -
  let ?item = "exampleItem 2 ''boom'' [] :: string logItem"
  have fresh: "lastMessageId oneBoom < item_id ?item"
    by (simp add: oneBoom_eq started_eq initial_def exampleItem_def)
  have fmt: "formatMessage exampleEnv (item_text ?item) (item_replacements ?item) =
      Inr (''boom'', [])"
    by (simp add: formatMessage_def exampleEnv_def exampleFormatter_def exampleItem_def)
  have dup: "markDuplicate (messageItemOf exampleEnv ?item (''boom'', [])) (buffer oneBoom) =
      Some [exampleMessage ''boom'' 2]"
    by (simp add: oneBoom_eq example_simps)
  from C10_merge_changes_repetitions_only [OF fresh fmt dup, of 4001] fresh dup
  show ?thesis
    by (auto simp add: oneBoom_eq exampleMessage_def exampleItem_def)
qed

end
